theory Spec2Isabelle
  imports Complex_Main "HOL-Library.Sublist"
begin

section \<open>Python values used by the pipeline\<close>

text \<open>
  A Python \<open>str\<close> is a sequence of Unicode code points and \<open>len\<close> counts code points,
  so a string is modelled as the list of its code points (natural numbers).  Literals of
  the source are written with \<open>str\<close>, which maps an ASCII literal to its code points.
  Similarity scores are Python floats; they are only compared, maximised and averaged, and
  are modelled as real numbers (no NaN, no rounding in the average).
\<close>

type_synonym pystr = "nat list"

definition str :: "string \<Rightarrow> pystr" where
  "str s = map of_char s"

text \<open>Values stored in metadata dictionaries: the ingestion code stores strings and integers.\<close>

datatype pyval = PStr pystr | PInt int

type_synonym pydict = "pystr \<rightharpoonup> pyval"

text \<open>\<open>d.get(k, default)\<close>\<close>

definition dict_get :: "pydict \<Rightarrow> pystr \<Rightarrow> pyval \<Rightarrow> pyval" where
  "dict_get d k dflt = (case d k of None \<Rightarrow> dflt | Some v \<Rightarrow> v)"

text \<open>
  Exceptions.  \<open>ProviderError\<close> stands for whatever an external collaborator raises
  (tagged with its cause); \<open>MaxRetriesExceeded\<close> is \<open>Exception("Max retries exceeded")\<close>.
\<close>

datatype exn = AttributeError | TypeError | ProviderError string | MaxRetriesExceeded

section \<open>Configuration (\<open>app/config.py\<close>)\<close>

record settings =
  chunk_size :: int
  chunk_overlap :: int
  retrieval_top_k :: int
  confidence_threshold :: real
  max_retries :: int

definition default_settings :: settings where
  "default_settings = \<lparr>chunk_size = 1000, chunk_overlap = 200, retrieval_top_k = 5,
     confidence_threshold = 0.7, max_retries = 3\<rparr>"

section \<open>Retrieval service (\<open>app/services/retrieval_service.py\<close>)\<close>

record hit =
  hit_id :: pystr
  hit_score :: real
  hit_metadata :: pydict

record context_chunk =
  ctx_text :: pyval
  ctx_chunk_id :: pystr
  ctx_document_id :: pyval
  ctx_score :: real
  ctx_metadata :: pydict

record citation =
  cit_document_id :: pyval
  cit_chunk_id :: pystr
  cit_text :: pystr
  cit_confidence_score :: real
  cit_metadata :: pydict

text \<open>
  The \<open>retrieval_metadata\<close> dictionary has fixed literal keys; the zero-hit return path
  sets only \<open>retrieval_count\<close> and \<open>attempt\<close>, so the other keys are optional fields.
\<close>

record retrieval_metadata =
  retrieval_count :: nat
  total_retrieved :: "nat option"
  avg_confidence :: "real option"
  max_confidence :: "real option"
  threshold_used :: "real option"
  attempt :: nat

record outcome =
  answer :: pystr
  citations :: "citation list"
  confidence_score :: real
  retrieval_metadata :: retrieval_metadata

text \<open>
  The three collaborators are external services whose replies may change from one
  attempt to the next; each is a function of the attempt index and of its arguments
  that either raises or returns.
\<close>

record providers =
  generate_embedding :: "nat \<Rightarrow> pystr \<Rightarrow> exn + real list"
  query_vectors :: "nat \<Rightarrow> real list \<Rightarrow> int \<Rightarrow> exn + hit list"
  generate_response :: "nat \<Rightarrow> pystr \<Rightarrow> context_chunk list \<Rightarrow> bool \<Rightarrow> exn + pystr"

text \<open>Observable effects of a call, in order: collaborator calls and backoff sleeps.\<close>

datatype event = Embed | Query | Generate | Sleep nat

text \<open>\<open>RetrievalService.__init__\<close> copies two settings into the service object.\<close>

record retrieval_service =
  svc_confidence_threshold :: real
  svc_max_retries :: int

definition init_retrieval_service :: "settings \<Rightarrow> retrieval_service" where
  "init_retrieval_service s =
     \<lparr>svc_confidence_threshold = confidence_threshold s, svc_max_retries = max_retries s\<rparr>"

text \<open>
  Lines 44-45: \<open>confidence_threshold or self.confidence_threshold\<close> and
  \<open>top_k or settings.retrieval_top_k\<close>.  Python's \<open>or\<close> yields its right operand when the
  left one is falsy: \<open>None\<close>, but also \<open>0.0\<close> and \<open>0\<close>.
\<close>

definition effective_threshold :: "retrieval_service \<Rightarrow> real option \<Rightarrow> real" where
  "effective_threshold svc confidence_threshold_arg =
     (case confidence_threshold_arg of
        None \<Rightarrow> svc_confidence_threshold svc
      | Some t \<Rightarrow> if t = 0 then svc_confidence_threshold svc else t)"

definition effective_top_k :: "settings \<Rightarrow> int option \<Rightarrow> int" where
  "effective_top_k s top_k_arg =
     (case top_k_arg of
        None \<Rightarrow> retrieval_top_k s
      | Some k \<Rightarrow> if k = 0 then retrieval_top_k s else k)"

text \<open>
  Line 140: \<open>text[:200] + "..." if len(text) > 200 else text\<close>; the conditional
  expression binds weaker than \<open>+\<close>, and \<open>len\<close> of an integer raises \<open>TypeError\<close>.
\<close>

definition citation_text :: "pyval \<Rightarrow> exn + pystr" where
  "citation_text v =
     (case v of
        PInt _ \<Rightarrow> Inl TypeError
      | PStr s \<Rightarrow> Inr (if length s > 200 then take 200 s @ str ''...'' else s))"

definition build_citation :: "context_chunk \<Rightarrow> exn + citation" where
  "build_citation chunk =
     (case citation_text (ctx_text chunk) of
        Inl e \<Rightarrow> Inl e
      | Inr t \<Rightarrow> Inr \<lparr>cit_document_id = ctx_document_id chunk, cit_chunk_id = ctx_chunk_id chunk,
                    cit_text = t, cit_confidence_score = ctx_score chunk,
                    cit_metadata = ctx_metadata chunk\<rparr>)"

fun build_citations :: "context_chunk list \<Rightarrow> exn + citation list" where
  "build_citations [] = Inr []"
| "build_citations (chunk # chunks) =
     (case build_citation chunk of
        Inl e \<Rightarrow> Inl e
      | Inr c \<Rightarrow> (case build_citations chunks of Inl e \<Rightarrow> Inl e | Inr cs \<Rightarrow> Inr (c # cs)))"

text \<open>Lines 88-97: the context fragment built from one surviving hit.\<close>

definition context_of :: "hit \<Rightarrow> context_chunk" where
  "context_of r =
     \<lparr>ctx_text = dict_get (hit_metadata r) (str ''text'') (PStr []),
      ctx_chunk_id = hit_id r,
      ctx_document_id = dict_get (hit_metadata r) (str ''document_id'') (PStr []),
      ctx_score = hit_score r,
      ctx_metadata = hit_metadata r\<rparr>"

text \<open>\<open>max(xs)\<close> on a non-empty list: a left-to-right scan keeping the larger value.\<close>

definition py_max :: "real list \<Rightarrow> real" where
  "py_max xs = fold max (tl xs) (hd xs)"

text \<open>
  Lines 71-85: the scores, the threshold filter and the fallback.  Returns the surviving
  hits together with the value of \<open>max_confidence\<close> after the fallback assignment.
\<close>

definition select_hits :: "real \<Rightarrow> hit list \<Rightarrow> hit list \<times> real" where
  "select_hits threshold results =
     (let confidence_scores = map hit_score results;
          max_conf = py_max confidence_scores;
          filtered_results = filter (\<lambda>r. hit_score r \<ge> threshold) results
      in if filtered_results = [] then (take 1 results, hit_score (hd results))
         else (filtered_results, max_conf))"

text \<open>Lines 61-69: the outcome returned when the store has no hit.\<close>

definition no_results_outcome :: "nat \<Rightarrow> outcome" where
  "no_results_outcome attempt_no =
     \<lparr>answer = str ''I couldn't find any relevant information to answer your question.'',
      citations = [],
      confidence_score = 0,
      retrieval_metadata =
        \<lparr>retrieval_count = 0, total_retrieved = None, avg_confidence = None,
         max_confidence = None, threshold_used = None, attempt = attempt_no\<rparr>\<rparr>"

text \<open>
  Lines 49-121: the body of the \<open>try\<close> block for one attempt.  The result is the list of
  collaborator calls made and either the exception raised or the outcome returned.
  The branch \<open>results = []\<close> is line 59; the else-branches of the conditional expressions
  on lines 73-74 are unreachable after it.
\<close>

definition try_attempt ::
  "providers \<Rightarrow> pystr \<Rightarrow> int \<Rightarrow> real \<Rightarrow> bool \<Rightarrow> nat \<Rightarrow> event list \<times> (exn + outcome)" where
  "try_attempt env query top_k threshold include_citations att =
     (case generate_embedding env att query of
        Inl e \<Rightarrow> ([Embed], Inl e)
      | Inr query_embedding \<Rightarrow>
         (case query_vectors env att query_embedding top_k of
            Inl e \<Rightarrow> ([Embed, Query], Inl e)
          | Inr results \<Rightarrow>
             if results = [] then ([Embed, Query], Inr (no_results_outcome (att + 1)))
             else
               let confidence_scores = map hit_score results;
                   avg_conf = sum_list confidence_scores / real (length confidence_scores);
                   (filtered_results, max_conf) = select_hits threshold results;
                   context_chunks = map context_of filtered_results
               in (case generate_response env att query context_chunks include_citations of
                     Inl e \<Rightarrow> ([Embed, Query, Generate], Inl e)
                   | Inr llm_answer \<Rightarrow>
                      (case (if include_citations then build_citations context_chunks
                             else Inr []) of
                         Inl e \<Rightarrow> ([Embed, Query, Generate], Inl e)
                       | Inr cits \<Rightarrow>
                          ([Embed, Query, Generate],
                           Inr \<lparr>answer = llm_answer,
                                citations = cits,
                                confidence_score = max_conf,
                                retrieval_metadata =
                                  \<lparr>retrieval_count = length filtered_results,
                                   total_retrieved = Some (length results),
                                   avg_confidence = Some avg_conf,
                                   max_confidence = Some max_conf,
                                   threshold_used = Some threshold,
                                   attempt = att + 1\<rparr>\<rparr>)))))"

text \<open>
  Lines 48 and 123-131: the retry loop over \<open>range(self.max_retries)\<close>.  An attempt that
  raises is followed by \<open>time.sleep(2 ** attempt)\<close> unless it is attempt
  \<open>max_retries - 1\<close>, whose exception is re-raised; line 131 is reached when the range
  is empty.  The sleep is recorded in the trace and always returns.
\<close>

fun retry_loop ::
  "retrieval_service \<Rightarrow> providers \<Rightarrow> pystr \<Rightarrow> int \<Rightarrow> real \<Rightarrow> bool \<Rightarrow> nat list
     \<Rightarrow> event list \<times> (exn + outcome)" where
  "retry_loop svc env query top_k threshold include_citations [] = ([], Inl MaxRetriesExceeded)"
| "retry_loop svc env query top_k threshold include_citations (att # rest) =
     (case try_attempt env query top_k threshold include_citations att of
        (tr, Inr out) \<Rightarrow> (tr, Inr out)
      | (tr, Inl e) \<Rightarrow>
          if int att = svc_max_retries svc - 1 then (tr, Inl e)
          else (case retry_loop svc env query top_k threshold include_citations rest of
                  (tr', r) \<Rightarrow> (tr @ [Sleep (2 ^ att)] @ tr', r)))"

text \<open>One attempt of a call, with the effective \<open>top_k\<close> and threshold of lines 44-45.\<close>

definition attempt_of ::
  "settings \<Rightarrow> retrieval_service \<Rightarrow> providers \<Rightarrow> pystr \<Rightarrow> int option \<Rightarrow> real option \<Rightarrow> bool
     \<Rightarrow> nat \<Rightarrow> event list \<times> (exn + outcome)" where
  "attempt_of s svc env query top_k_arg confidence_threshold_arg include_citations att =
     try_attempt env query (effective_top_k s top_k_arg)
       (effective_threshold svc confidence_threshold_arg) include_citations att"

definition retrieve_and_answer ::
  "settings \<Rightarrow> retrieval_service \<Rightarrow> providers \<Rightarrow> pystr \<Rightarrow> int option \<Rightarrow> real option \<Rightarrow> bool
     \<Rightarrow> event list \<times> (exn + outcome)" where
  "retrieve_and_answer s svc env query top_k_arg confidence_threshold_arg include_citations =
     (let threshold = effective_threshold svc confidence_threshold_arg;
          top_k = effective_top_k s top_k_arg
      in retry_loop svc env query top_k threshold include_citations
           [0 ..< nat (svc_max_retries svc)])"

subsection \<open>Observations on the effect trace\<close>

text \<open>The delays slept, in order, and the number of attempts started (each starts by embedding).\<close>

definition sleeps :: "event list \<Rightarrow> nat list" where
  "sleeps tr = concat (map (\<lambda>e. case e of Sleep d \<Rightarrow> [d] | _ \<Rightarrow> []) tr)"

definition attempts_made :: "event list \<Rightarrow> nat" where
  "attempts_made tr = length (filter (\<lambda>e. e = Embed) tr)"

section \<open>Chunking pipeline (\<open>app/pipelines/chunking.py\<close>)\<close>

subsection \<open>String primitives\<close>

text \<open>
  The code points for which \<open>str.isspace\<close> holds; \<open>str.strip()\<close> and the regular
  expression class \<open>\s\<close> both use this set.
\<close>

definition is_space :: "nat \<Rightarrow> bool" where
  "is_space c \<longleftrightarrow>
     (9 \<le> c \<and> c \<le> 13) \<or> (28 \<le> c \<and> c \<le> 32) \<or> c = 133 \<or> c = 160 \<or> c = 5760 \<or>
     (8192 \<le> c \<and> c \<le> 8202) \<or> c = 8232 \<or> c = 8233 \<or> c = 8239 \<or> c = 8287 \<or> c = 12288"

text \<open>The character class \<open>[.!?]\<close>.\<close>

definition is_sentence_end :: "nat \<Rightarrow> bool" where
  "is_sentence_end c \<longleftrightarrow> c = 46 \<or> c = 33 \<or> c = 63"

text \<open>\<open>s.strip()\<close>\<close>

definition strip :: "pystr \<Rightarrow> pystr" where
  "strip s = rev (dropWhile is_space (rev (dropWhile is_space s)))"

text \<open>
  \<open>re.split(r'(?<=[.!?])\s+', text)\<close>: a separator is a maximal run of whitespace that
  directly follows one of \<open>. ! ?\<close>; the text is cut at every separator, scanning from the
  left.  \<open>acc\<close> is the piece read so far.
\<close>

function re_split :: "pystr \<Rightarrow> pystr \<Rightarrow> pystr list" where
  "re_split acc [] = [acc]"
| "re_split acc [c] = [acc @ [c]]"
| "re_split acc (c # d # cs) =
     (if is_sentence_end c \<and> is_space d
      then (acc @ [c]) # re_split [] (dropWhile is_space cs)
      else re_split (acc @ [c]) (d # cs))"
  by pat_completeness auto
termination
proof (relation "measure (\<lambda>(acc, s). length s)")
  fix acc :: pystr and c d :: nat and cs :: pystr
  have "length (dropWhile is_space cs) \<le> length cs"
    by (rule length_dropWhile_le)
  then show "(([], dropWhile is_space cs), (acc, c # d # cs)) \<in> measure (\<lambda>(acc, s). length s)"
    by simp
qed simp_all

text \<open>Lines 96-101: \<open>[s.strip() for s in sentences if s.strip()]\<close>.\<close>

definition split_sentences :: "pystr \<Rightarrow> pystr list" where
  "split_sentences text = map strip (filter (\<lambda>s. strip s \<noteq> []) (re_split [] text))"

text \<open>\<open>" ".join(parts)\<close>\<close>

fun join_space :: "pystr list \<Rightarrow> pystr" where
  "join_space [] = []"
| "join_space [p] = p"
| "join_space (p # q # ps) = p @ [32] @ join_space (q # ps)"

text \<open>\<open>xs[i:]\<close> for any integer \<open>i\<close>: a negative index counts from the end.\<close>

definition slice_from :: "int \<Rightarrow> 'a list \<Rightarrow> 'a list" where
  "slice_from i xs = (if i < 0 then drop (nat (int (length xs) + i)) xs else drop (nat i) xs)"

text \<open>\<open>s.find(c)\<close>: the index of the first occurrence, or \<open>-1\<close>.\<close>

definition find_char :: "nat \<Rightarrow> pystr \<Rightarrow> int" where
  "find_char c s = (if c \<in> set s then int (length (takeWhile (\<lambda>x. x \<noteq> c) s)) else - 1)"

text \<open>\<open>str(n)\<close> for an integer.\<close>

fun str_of_nat :: "nat \<Rightarrow> pystr" where
  "str_of_nat n = (if n < 10 then [48 + n] else str_of_nat (n div 10) @ [48 + n mod 10])"

declare str_of_nat.simps [simp del]

definition str_of_int :: "int \<Rightarrow> pystr" where
  "str_of_int i = (if i < 0 then 45 # str_of_nat (nat (- i)) else str_of_nat (nat i))"

text \<open>The text an f-string substitutes for a metadata value.\<close>

definition format_val :: "pyval \<Rightarrow> pystr" where
  "format_val v = (case v of PStr s \<Rightarrow> s | PInt i \<Rightarrow> str_of_int i)"

subsection \<open>The chunker\<close>

record chunker =
  ck_chunk_size :: int
  ck_chunk_overlap :: int

text \<open>Lines 14-20: \<open>chunk_size or settings.chunk_size\<close>, likewise for the overlap.\<close>

definition init_chunker :: "settings \<Rightarrow> int option \<Rightarrow> int option \<Rightarrow> chunker" where
  "init_chunker s chunk_size_arg chunk_overlap_arg =
     \<lparr>ck_chunk_size = (case chunk_size_arg of None \<Rightarrow> chunk_size s
                        | Some n \<Rightarrow> if n = 0 then chunk_size s else n),
      ck_chunk_overlap = (case chunk_overlap_arg of None \<Rightarrow> chunk_overlap s
                        | Some n \<Rightarrow> if n = 0 then chunk_overlap s else n)\<rparr>"

record chunk =
  c_chunk_id :: pystr
  c_text :: pystr
  c_start_index :: int
  c_end_index :: int
  c_metadata :: pydict

text \<open>Lines 103-113.\<close>

definition get_overlap_text :: "chunker \<Rightarrow> pystr \<Rightarrow> pystr" where
  "get_overlap_text ck text =
     (if int (length text) \<le> ck_chunk_overlap ck then text
      else let overlap = slice_from (- ck_chunk_overlap ck) text;
               first_space = find_char 32 overlap
           in if first_space > 0 then slice_from (first_space + 1) overlap else overlap)"

text \<open>
  Lines 58-67 and 82-91: the dictionary appended to \<open>chunks\<close>.  Its first entry evaluates
  \<open>metadata.get('document_id', 'doc')\<close>, which raises \<open>AttributeError\<close> when \<open>metadata\<close>
  is \<open>None\<close>; \<open>{**(metadata or {}), "chunk_index": chunk_id}\<close> is the caller's map with
  one more key.
\<close>

definition make_chunk :: "pydict option \<Rightarrow> nat \<Rightarrow> int \<Rightarrow> pystr \<Rightarrow> exn + chunk" where
  "make_chunk metadata chunk_id start chunk_text =
     (case metadata of
        None \<Rightarrow> Inl AttributeError
      | Some md \<Rightarrow>
          Inr \<lparr>c_chunk_id = format_val (dict_get md (str ''document_id'') (PStr (str ''doc'')))
                             @ str ''_'' @ str_of_nat chunk_id,
               c_text = chunk_text,
               c_start_index = start,
               c_end_index = start + int (length chunk_text),
               c_metadata = md(str ''chunk_index'' \<mapsto> PInt (int chunk_id))\<rparr>)"

text \<open>The local variables of \<open>chunk_text\<close> that the loop updates.\<close>

record chunk_state =
  st_chunks :: "chunk list"
  st_start :: int
  st_chunk_id :: nat
  st_current_chunk :: "pystr list"
  st_current_length :: int

text \<open>
  Lines 56-74: close the current chunk.  The chunk is appended, \<open>chunk_id\<close> is incremented,
  the buffer is re-seeded with the overlap tail (when that is not empty) and \<open>start\<close> is
  advanced.
\<close>

definition close_chunk :: "chunker \<Rightarrow> pydict option \<Rightarrow> chunk_state \<Rightarrow> exn + chunk_state" where
  "close_chunk ck metadata st =
     (let chunk_text = join_space (st_current_chunk st) in
      case make_chunk metadata (st_chunk_id st) (st_start st) chunk_text of
        Inl e \<Rightarrow> Inl e
      | Inr c \<Rightarrow>
         (let overlap_text = get_overlap_text ck chunk_text in
          Inr \<lparr>st_chunks = st_chunks st @ [c],
               st_start = st_start st + (int (length chunk_text) - int (length overlap_text)),
               st_chunk_id = st_chunk_id st + 1,
               st_current_chunk = (if overlap_text \<noteq> [] then [overlap_text] else []),
               st_current_length = (if overlap_text \<noteq> [] then int (length overlap_text) else 0)\<rparr>))"

text \<open>
  Lines 52-77: the loop body for one sentence.  The current chunk is closed first when the
  sentence would make a non-empty buffer exceed \<open>chunk_size\<close>; the sentence is then appended
  to the buffer in either case.
\<close>

definition chunk_step ::
  "chunker \<Rightarrow> pydict option \<Rightarrow> chunk_state \<Rightarrow> pystr \<Rightarrow> exn + chunk_state" where
  "chunk_step ck metadata st sentence =
     (let sentence_length = int (length sentence) in
      case (if st_current_length st + sentence_length > ck_chunk_size ck
               \<and> st_current_chunk st \<noteq> []
            then close_chunk ck metadata st else Inr st) of
        Inl e \<Rightarrow> Inl e
      | Inr st1 \<Rightarrow>
          Inr (st1\<lparr>st_current_chunk := st_current_chunk st1 @ [sentence],
                   st_current_length := st_current_length st1 + sentence_length + 1\<rparr>))"

text \<open>Line 51: the loop over the sentences; an exception ends it.\<close>

fun chunk_loop :: "chunker \<Rightarrow> pydict option \<Rightarrow> chunk_state \<Rightarrow> pystr list \<Rightarrow> exn + chunk_state" where
  "chunk_loop ck metadata st [] = Inr st"
| "chunk_loop ck metadata st (sentence # rest) =
     (case chunk_step ck metadata st sentence of
        Inl e \<Rightarrow> Inl e
      | Inr st' \<Rightarrow> chunk_loop ck metadata st' rest)"

definition initial_state :: chunk_state where
  "initial_state = \<lparr>st_chunks = [], st_start = 0, st_chunk_id = 0, st_current_chunk = [],
     st_current_length = 0\<rparr>"

text \<open>Lines 22-94.\<close>

definition chunk_text :: "chunker \<Rightarrow> pystr \<Rightarrow> pydict option \<Rightarrow> exn + chunk list" where
  "chunk_text ck text metadata =
     (if text = [] \<or> strip text = [] then Inr []
      else
        (case chunk_loop ck metadata initial_state (split_sentences text) of
           Inl e \<Rightarrow> Inl e
         | Inr st \<Rightarrow>
            if st_current_chunk st \<noteq> [] then
              (case make_chunk metadata (st_chunk_id st) (st_start st)
                      (join_space (st_current_chunk st)) of
                 Inl e \<Rightarrow> Inl e
               | Inr c \<Rightarrow> Inr (st_chunks st @ [c]))
            else Inr (st_chunks st)))"

subsection \<open>Relations between consecutive chunks\<close>

text \<open>
  The overlap tail of a closed chunk is \<open>get_overlap_text\<close> of its text.  Chunk \<open>d\<close> follows
  chunk \<open>c\<close> when its text begins with that tail and its \<open>start_index\<close> is the one line 74
  computes.
\<close>

definition carried :: "chunker \<Rightarrow> chunk \<Rightarrow> chunk \<Rightarrow> bool" where
  "carried ck c d =
     (let overlap_text = get_overlap_text ck (c_text c)
      in prefix overlap_text (c_text d) \<and>
         c_start_index d
           = c_start_index c + (int (length (c_text c)) - int (length overlap_text)))"

text \<open>
  Where a tail of the text \<open>whole\<close> begins: at the start of \<open>whole\<close>, right after a space, or on a
  space (a word boundary); or between two characters that are not whitespace (the middle
  of a word).
\<close>

definition at_word_boundary :: "pystr \<Rightarrow> pystr \<Rightarrow> bool" where
  "at_word_boundary whole tail =
     (let p = length whole - length tail
      in p = 0 \<or> whole ! (p - 1) = 32 \<or> (p < length whole \<and> whole ! p = 32))"

definition starts_mid_word :: "pystr \<Rightarrow> pystr \<Rightarrow> bool" where
  "starts_mid_word whole tail =
     (let p = length whole - length tail
      in 0 < p \<and> p < length whole \<and> \<not> is_space (whole ! (p - 1)) \<and> \<not> is_space (whole ! p))"

subsection \<open>Loop invariants\<close>

text \<open>No piece of the buffer is empty.\<close>

definition pieces_ok :: "chunk_state \<Rightarrow> bool" where
  "pieces_ok st \<longleftrightarrow> (\<forall>p \<in> set (st_current_chunk st). p \<noteq> [])"

text \<open>
  \<open>chunk_id\<close> counts the chunks emitted; chunk \<open>i\<close> has a non-empty text and the caller's
  metadata extended with \<open>chunk_index = i\<close>.
\<close>

definition emitted_ok :: "pydict \<Rightarrow> chunk list \<Rightarrow> bool" where
  "emitted_ok md cs \<longleftrightarrow>
     (\<forall>i < length cs. c_text (cs ! i) \<noteq> [] \<and>
        c_metadata (cs ! i) = md(str ''chunk_index'' \<mapsto> PInt (int i)))"

text \<open>
  Every emitted chunk ends at \<open>start_index + len(text)\<close> and follows its predecessor.
\<close>

definition chained :: "chunker \<Rightarrow> chunk list \<Rightarrow> bool" where
  "chained ck cs \<longleftrightarrow>
     successively (carried ck) cs \<and>
     (\<forall>c \<in> set cs. c_end_index c = c_start_index c + int (length (c_text c)))"

text \<open>
  Once a chunk has been emitted, the buffer is not empty, begins with the overlap tail of
  the last chunk, and \<open>start\<close> is where the chunk made from the buffer will start.
\<close>

definition linked :: "chunker \<Rightarrow> chunk_state \<Rightarrow> bool" where
  "linked ck st \<longleftrightarrow>
     chained ck (st_chunks st) \<and>
     (st_chunks st \<noteq> [] \<longrightarrow>
        st_current_chunk st \<noteq> [] \<and>
        (let c = last (st_chunks st); overlap_text = get_overlap_text ck (c_text c)
         in prefix overlap_text (join_space (st_current_chunk st)) \<and>
            st_start st
              = c_start_index c + (int (length (c_text c)) - int (length overlap_text))))"

text \<open>The chunks a call returned (none when it raised).\<close>

definition chunks_of :: "exn + chunk list \<Rightarrow> chunk list" where
  "chunks_of r = (case r of Inl e \<Rightarrow> [] | Inr cs \<Rightarrow> cs)"

section \<open>Example inputs\<close>

text \<open>
  Collaborators for the examples: embedding fails on the first \<open>fail_before\<close> attempts and
  then returns; the store returns \<open>hits\<close>; the generator answers with the identifiers of
  the context fragments it was given.
\<close>

definition ex_providers :: "nat \<Rightarrow> hit list \<Rightarrow> providers" where
  "ex_providers fail_before hits =
     \<lparr>generate_embedding =
        (\<lambda>i q. if i < fail_before then Inl (ProviderError ''embedding down'') else Inr []),
      query_vectors = (\<lambda>i v k. Inr hits),
      generate_response = (\<lambda>i q ctx ic. Inr (concat (map ctx_chunk_id ctx)))\<rparr>"

definition ex_hit :: "string \<Rightarrow> real \<Rightarrow> pystr \<Rightarrow> hit" where
  "ex_hit name sc txt =
     \<lparr>hit_id = str name, hit_score = sc, hit_metadata = [str ''text'' \<mapsto> PStr txt]\<rparr>"

definition ex_service :: retrieval_service where
  "ex_service = init_retrieval_service default_settings"

text \<open>Hits sorted by descending score.\<close>

definition ex_sorted_hits :: "hit list" where
  "ex_sorted_hits = [ex_hit ''a'' 0.9 (str ''alpha''), ex_hit ''b'' 0.4 (str ''beta''),
     ex_hit ''c'' 0.2 (str ''gamma'')]"

text \<open>What a call reports, read off its result (nothing when the call raised).\<close>

definition reported_confidence :: "event list \<times> (exn + outcome) \<Rightarrow> real option" where
  "reported_confidence r =
     (case snd r of Inl e \<Rightarrow> None | Inr out \<Rightarrow> Some (confidence_score out))"

definition reported_max_confidence :: "event list \<times> (exn + outcome) \<Rightarrow> real option" where
  "reported_max_confidence r =
     (case snd r of Inl e \<Rightarrow> None | Inr out \<Rightarrow> max_confidence (retrieval_metadata out))"

definition reported_threshold :: "event list \<times> (exn + outcome) \<Rightarrow> real option" where
  "reported_threshold r =
     (case snd r of Inl e \<Rightarrow> None | Inr out \<Rightarrow> threshold_used (retrieval_metadata out))"

text \<open>Two chunker configurations and texts for the examples.\<close>

definition ex_chunker_small :: chunker where
  "ex_chunker_small = \<lparr>ck_chunk_size = 10, ck_chunk_overlap = 4\<rparr>"

definition ex_text_small :: pystr where
  "ex_text_small = str ''abcdefghij. klm.''"

text \<open>A chunker built from settings whose \<open>chunk_overlap\<close> is \<open>0\<close>.\<close>

definition ex_chunker_zero :: chunker where
  "ex_chunker_zero =
     init_chunker (default_settings\<lparr>chunk_size := 10, chunk_overlap := 0\<rparr>) None None"

definition ex_chunker_wide :: chunker where
  "ex_chunker_wide = \<lparr>ck_chunk_size = 12, ck_chunk_overlap = 10\<rparr>"

definition ex_text_wide :: pystr where
  "ex_text_wide = str ''aaaaaaaaaaaa bb. c. ddddddd.''"

section \<open>Properties of the retrieval service\<close>

subsection \<open>Auxiliary facts\<close>

lemma py_max_Max: "xs \<noteq> [] \<Longrightarrow> py_max xs = Max (set xs)"
  by (cases xs) (simp_all add: py_max_def Max.set_eq_fold [symmetric])

lemma try_attempt_sleeps: "sleeps (fst (try_attempt env q k th ic i)) = []"
  by (auto simp: try_attempt_def sleeps_def Let_def split: sum.splits prod.splits)

lemma try_attempt_attempts: "attempts_made (fst (try_attempt env q k th ic i)) = 1"
  by (auto simp: try_attempt_def attempts_made_def Let_def split: sum.splits prod.splits)

lemma sleeps_append: "sleeps (xs @ ys) = sleeps xs @ sleeps ys"
  by (simp add: sleeps_def)

lemma attempts_made_append: "attempts_made (xs @ ys) = attempts_made xs + attempts_made ys"
  by (simp add: attempts_made_def)

lemma sleeps_Sleep: "sleeps (Sleep d # tr) = d # sleeps tr"
  by (simp add: sleeps_def)

lemma attempts_made_Sleep: "attempts_made (Sleep d # tr) = attempts_made tr"
  by (simp add: attempts_made_def)

text \<open>The loop stops at the first attempt that returns.\<close>

lemma retry_loop_first_success:
  assumes "j < n" and "int n \<le> svc_max_retries svc"
    and "\<forall>i. a \<le> i \<and> i < j \<longrightarrow> (\<exists>e. snd (try_attempt env q k th ic i) = Inl e)"
    and "snd (try_attempt env q k th ic j) = Inr out"
    and "a \<le> j"
  shows "snd (retry_loop svc env q k th ic [a ..< n]) = Inr out
       \<and> sleeps (fst (retry_loop svc env q k th ic [a ..< n])) = map (\<lambda>i. 2 ^ i) [a ..< j]
       \<and> attempts_made (fst (retry_loop svc env q k th ic [a ..< n])) = Suc j - a"
  using assms
proof (induction "j - a" arbitrary: a)
  case 0
  then have aj: "a = j" by simp
  obtain tr where T: "try_attempt env q k th ic j = (tr, Inr out)"
    using 0(5) by (cases "try_attempt env q k th ic j") auto
  have "[a ..< n] = j # [Suc j ..< n]" using 0 aj by (simp add: upt_conv_Cons)
  then show ?case
    using T aj try_attempt_sleeps[of env q k th ic j] try_attempt_attempts[of env q k th ic j]
    by simp
next
  case (Suc d)
  then have lt: "a < j" by simp
  then obtain e where E: "snd (try_attempt env q k th ic a) = Inl e" using Suc.prems by auto
  then obtain tr where T: "try_attempt env q k th ic a = (tr, Inl e)"
    by (cases "try_attempt env q k th ic a") auto
  have up: "[a ..< n] = a # [Suc a ..< n]" using lt Suc.prems by (simp add: upt_conv_Cons)
  have ne: "int a \<noteq> svc_max_retries svc - 1" using lt Suc.prems by linarith
  have IH: "snd (retry_loop svc env q k th ic [Suc a ..< n]) = Inr out
       \<and> sleeps (fst (retry_loop svc env q k th ic [Suc a ..< n])) = map (\<lambda>i. 2 ^ i) [Suc a ..< j]
       \<and> attempts_made (fst (retry_loop svc env q k th ic [Suc a ..< n])) = Suc j - Suc a"
    using Suc.hyps(1)[of "Suc a"] Suc.hyps(2) Suc.prems lt by auto
  have trs: "sleeps tr = []" "attempts_made tr = 1"
    using try_attempt_sleeps[of env q k th ic a] try_attempt_attempts[of env q k th ic a] T
    by simp_all
  have upj: "[a ..< j] = a # [Suc a ..< j]" using lt by (simp add: upt_conv_Cons)
  show ?case using IH T ne trs lt
    by (auto simp: up upj sleeps_append attempts_made_append sleeps_Sleep attempts_made_Sleep
          split: prod.splits)
qed

text \<open>When every attempt raises, the last exception is the one re-raised.\<close>

lemma retry_loop_all_fail:
  assumes "a < n" and "int n = svc_max_retries svc"
    and "\<forall>i. a \<le> i \<and> i < n \<longrightarrow> snd (try_attempt env q k th ic i) = Inl (cause i)"
  shows "snd (retry_loop svc env q k th ic [a ..< n]) = Inl (cause (n - 1))
       \<and> sleeps (fst (retry_loop svc env q k th ic [a ..< n])) = map (\<lambda>i. 2 ^ i) [a ..< n - 1]
       \<and> attempts_made (fst (retry_loop svc env q k th ic [a ..< n])) = n - a"
  using assms
proof (induction "n - a" arbitrary: a)
  case 0
  then show ?case by simp
next
  case (Suc d)
  obtain tr where T: "try_attempt env q k th ic a = (tr, Inl (cause a))"
    using Suc.prems by (cases "try_attempt env q k th ic a") auto
  have trs: "sleeps tr = []" "attempts_made tr = 1"
    using try_attempt_sleeps[of env q k th ic a] try_attempt_attempts[of env q k th ic a] T
    by simp_all
  have up: "[a ..< n] = a # [Suc a ..< n]" using Suc.prems by (simp add: upt_conv_Cons)
  show ?case
  proof (cases "Suc a = n")
    case True
    then have n: "n = Suc a" by simp
    then have "int a = svc_max_retries svc - 1" using Suc.prems by linarith
    then show ?thesis using T trs by (simp add: up n)
  next
    case False
    then have lt: "Suc a < n" using Suc.prems by simp
    have ne: "int a \<noteq> svc_max_retries svc - 1" using lt Suc.prems by linarith
    have IH: "snd (retry_loop svc env q k th ic [Suc a ..< n]) = Inl (cause (n - 1))
       \<and> sleeps (fst (retry_loop svc env q k th ic [Suc a ..< n]))
           = map (\<lambda>i. 2 ^ i) [Suc a ..< n - 1]
       \<and> attempts_made (fst (retry_loop svc env q k th ic [Suc a ..< n])) = n - Suc a"
      using Suc.hyps(1)[of "Suc a"] Suc.hyps(2) Suc.prems lt by auto
    have upj: "[a ..< n - Suc 0] = a # [Suc a ..< n - Suc 0]"
      using lt by (simp add: upt_conv_Cons)
    show ?thesis using IH T ne trs lt
      by (auto simp: up upj sleeps_append attempts_made_append sleeps_Sleep attempts_made_Sleep
            split: prod.splits)
  qed
qed

text \<open>The call returns the outcome of the first attempt that does not raise.\<close>

lemma first_success:
  assumes "j < nat (svc_max_retries svc)"
    and "\<forall>i<j. \<exists>e. snd (attempt_of s svc env q tk th ic i) = Inl e"
    and "snd (attempt_of s svc env q tk th ic j) = Inr out"
  shows "snd (retrieve_and_answer s svc env q tk th ic) = Inr out
       \<and> sleeps (fst (retrieve_and_answer s svc env q tk th ic)) = map (\<lambda>i. 2 ^ i) [0 ..< j]
       \<and> attempts_made (fst (retrieve_and_answer s svc env q tk th ic)) = Suc j"
proof -
  have "int (nat (svc_max_retries svc)) \<le> svc_max_retries svc" using assms(1) by simp
  from retry_loop_first_success[OF assms(1) this, of 0 env q "effective_top_k s tk"
      "effective_threshold svc th" ic out]
  show ?thesis using assms(2,3) by (simp add: retrieve_and_answer_def attempt_of_def)
qed

text \<open>Evaluation of the example inputs.\<close>

lemma ex_embedding_down:
  "i < n \<Longrightarrow> attempt_of s svc (ex_providers n hits) q tk th ic i
     = ([Embed], Inl (ProviderError ''embedding down''))"
  by (simp add: attempt_of_def try_attempt_def ex_providers_def)

lemma ex_service_retries: "svc_max_retries ex_service = 3"
  by (simp add: ex_service_def init_retrieval_service_def default_settings_def)

lemmas ex_eval = attempt_of_def try_attempt_def ex_providers_def ex_sorted_hits_def
  ex_hit_def select_hits_def py_max_def effective_threshold_def
  effective_top_k_def ex_service_def init_retrieval_service_def default_settings_def
  context_of_def dict_get_def build_citation_def citation_text_def str_def
  no_results_outcome_def

subsection \<open>Retries\<close>

text \<open>
  Claim C3.  With \<open>max_retries = n \<ge> 1\<close>: if each of the attempts \<open>0, ..., n - 1\<close> raises
  (attempt \<open>i\<close> with cause \<open>cause i\<close>), then exactly \<open>n\<close> attempts are made, the delays slept
  are \<open>2^0, ..., 2^(n-2)\<close> (one after every failed attempt but the last), and the call raises
  the cause of the last attempt.  If attempts \<open>0, ..., j - 1\<close> raise and attempt \<open>j < n\<close>
  returns, the call returns that outcome after \<open>j + 1\<close> attempts and the delays
  \<open>2^0, ..., 2^(j-1)\<close>: no later attempt is made.
\<close>

theorem retry_exhaustion_and_short_circuit:
  "(1 \<le> svc_max_retries svc \<and>
    (\<forall>i < nat (svc_max_retries svc). snd (attempt_of s svc env q tk th ic i) = Inl (cause i))
      \<longrightarrow> snd (retrieve_and_answer s svc env q tk th ic)
            = Inl (cause (nat (svc_max_retries svc) - 1))
        \<and> attempts_made (fst (retrieve_and_answer s svc env q tk th ic))
            = nat (svc_max_retries svc)
        \<and> sleeps (fst (retrieve_and_answer s svc env q tk th ic))
            = map (\<lambda>i. 2 ^ i) [0 ..< nat (svc_max_retries svc) - 1])
   \<and> (j < nat (svc_max_retries svc) \<and>
      (\<forall>i < j. \<exists>e. snd (attempt_of s svc env q tk th ic i) = Inl e) \<and>
      snd (attempt_of s svc env q tk th ic j) = Inr out
      \<longrightarrow> snd (retrieve_and_answer s svc env q tk th ic) = Inr out
        \<and> attempts_made (fst (retrieve_and_answer s svc env q tk th ic)) = Suc j
        \<and> sleeps (fst (retrieve_and_answer s svc env q tk th ic)) = map (\<lambda>i. 2 ^ i) [0 ..< j])"
proof (intro conjI impI)
  assume A: "1 \<le> svc_max_retries svc \<and>
    (\<forall>i < nat (svc_max_retries svc). snd (attempt_of s svc env q tk th ic i) = Inl (cause i))"
  then have pos: "0 < nat (svc_max_retries svc)"
    and eq: "int (nat (svc_max_retries svc)) = svc_max_retries svc" by simp_all
  have all: "\<forall>i. 0 \<le> i \<and> i < nat (svc_max_retries svc) \<longrightarrow>
      snd (try_attempt env q (effective_top_k s tk) (effective_threshold svc th) ic i)
        = Inl (cause i)"
    using A by (simp add: attempt_of_def)
  note L = retry_loop_all_fail[OF pos eq all]
  show "snd (retrieve_and_answer s svc env q tk th ic)
            = Inl (cause (nat (svc_max_retries svc) - 1))"
    using L by (simp add: retrieve_and_answer_def)
  show "attempts_made (fst (retrieve_and_answer s svc env q tk th ic))
            = nat (svc_max_retries svc)"
    using L by (simp add: retrieve_and_answer_def)
  show "sleeps (fst (retrieve_and_answer s svc env q tk th ic))
            = map (\<lambda>i. 2 ^ i) [0 ..< nat (svc_max_retries svc) - 1]"
    using L by (simp add: retrieve_and_answer_def)
next
  assume B: "j < nat (svc_max_retries svc) \<and>
      (\<forall>i < j. \<exists>e. snd (attempt_of s svc env q tk th ic i) = Inl e) \<and>
      snd (attempt_of s svc env q tk th ic j) = Inr out"
  then have L: "snd (retrieve_and_answer s svc env q tk th ic) = Inr out
       \<and> sleeps (fst (retrieve_and_answer s svc env q tk th ic)) = map (\<lambda>i. 2 ^ i) [0 ..< j]
       \<and> attempts_made (fst (retrieve_and_answer s svc env q tk th ic)) = Suc j"
    using first_success[of j svc s env q tk th ic out] by blast
  show "snd (retrieve_and_answer s svc env q tk th ic) = Inr out" using L by simp
  show "attempts_made (fst (retrieve_and_answer s svc env q tk th ic)) = Suc j" using L by simp
  show "sleeps (fst (retrieve_and_answer s svc env q tk th ic)) = map (\<lambda>i. 2 ^ i) [0 ..< j]"
    using L by simp
qed

text \<open>
  With the default \<open>max_retries = 3\<close>: an embedding service that is always down, and one
  that fails once and then answers.
\<close>

theorem retry_exhaustion_and_short_circuit_witness:
  "svc_max_retries ex_service = 3
   \<and> retrieve_and_answer default_settings ex_service (ex_providers 3 ex_sorted_hits) (str ''q'')
         None None True
       = ([Embed, Sleep 1, Embed, Sleep 2, Embed], Inl (ProviderError ''embedding down''))
   \<and> attempts_made (fst (retrieve_and_answer default_settings ex_service
         (ex_providers 3 ex_sorted_hits) (str ''q'') None None True)) = 3
   \<and> sleeps (fst (retrieve_and_answer default_settings ex_service
         (ex_providers 3 ex_sorted_hits) (str ''q'') None None True)) = [2 ^ 0, 2 ^ 1]
   \<and> attempts_made (fst (retrieve_and_answer default_settings ex_service
         (ex_providers 1 ex_sorted_hits) (str ''q'') None None True)) = 2
   \<and> sleeps (fst (retrieve_and_answer default_settings ex_service
         (ex_providers 1 ex_sorted_hits) (str ''q'') None None True)) = [2 ^ 0]
   \<and> reported_confidence (retrieve_and_answer default_settings ex_service
         (ex_providers 1 ex_sorted_hits) (str ''q'') None None True) = Some 0.9"
proof -
  let ?down = "ex_providers 3 ex_sorted_hits" and ?flaky = "ex_providers 1 ex_sorted_hits"
  have A: "1 \<le> svc_max_retries ex_service \<and>
    (\<forall>i < nat (svc_max_retries ex_service).
        snd (attempt_of default_settings ex_service ?down (str ''q'') None None True i)
          = Inl ((\<lambda>i. ProviderError ''embedding down'') i))"
    by (simp add: ex_service_retries ex_embedding_down)
  obtain out where out: "snd (attempt_of default_settings ex_service ?flaky (str ''q'') None None True 1) = Inr out"
      and conf: "confidence_score out = 0.9"
    by (simp add: ex_eval)
  have B: "1 < nat (svc_max_retries ex_service) \<and>
      (\<forall>i < 1. \<exists>e. snd (attempt_of default_settings ex_service ?flaky (str ''q'') None None True i) = Inl e) \<and>
      snd (attempt_of default_settings ex_service ?flaky (str ''q'') None None True 1) = Inr out"
    using out by (simp add: ex_service_retries ex_embedding_down)
  have upt: "[0 ..< 2] = [0, Suc 0]" "[0 ..< 1] = [0]" by (simp_all add: upt_rec)
  have tr: "fst (retrieve_and_answer default_settings ex_service ?down (str ''q'') None None True)
     = [Embed, Sleep 1, Embed, Sleep 2, Embed]"
    by (simp add: retrieve_and_answer_def ex_service_retries upt_rec ex_embedding_down [unfolded attempt_of_def])
  show ?thesis
    using retry_exhaustion_and_short_circuit[where svc = ex_service and s = default_settings
        and env = ?down and q = "str ''q''" and tk = None and th = None and ic = True
        and cause = "\<lambda>i. ProviderError ''embedding down''", THEN conjunct1, rule_format, OF A]
      retry_exhaustion_and_short_circuit[where svc = ex_service and s = default_settings
        and env = ?flaky and q = "str ''q''" and tk = None and th = None and ic = True
        and j = 1 and out = out, THEN conjunct2, rule_format, OF B]
      conf tr
    by (simp add: ex_service_retries upt reported_confidence_def prod_eq_iff)
qed

subsection \<open>The zero-hit outcome\<close>

text \<open>
  Claim C4.  If the attempts before attempt \<open>j\<close> raised and on attempt \<open>j\<close> the store
  returns no hit, the call returns (it does not raise) the canned answer with no citation,
  confidence \<open>0.0\<close>, \<open>retrieval_count = 0\<close> and \<open>attempt = j + 1\<close>; attempt \<open>j\<close> makes no
  call to the answer generator and is the last attempt made.
\<close>

theorem zero_hits_return_immediately:
  assumes "j < nat (svc_max_retries svc)"
    and "\<forall>i<j. \<exists>e. snd (attempt_of s svc env q tk th ic i) = Inl e"
    and "generate_embedding env j q = Inr v"
    and "query_vectors env j v (effective_top_k s tk) = Inr []"
  shows "\<exists>out. snd (retrieve_and_answer s svc env q tk th ic) = Inr out
      \<and> answer out = str ''I couldn't find any relevant information to answer your question.''
      \<and> citations out = []
      \<and> confidence_score out = 0
      \<and> retrieval_count (retrieval_metadata out) = 0
      \<and> attempt (retrieval_metadata out) = j + 1
      \<and> fst (attempt_of s svc env q tk th ic j) = [Embed, Query]
      \<and> attempts_made (fst (retrieve_and_answer s svc env q tk th ic)) = j + 1
      \<and> sleeps (fst (retrieve_and_answer s svc env q tk th ic)) = map (\<lambda>i. 2 ^ i) [0 ..< j]"
proof -
  have T: "attempt_of s svc env q tk th ic j = ([Embed, Query], Inr (no_results_outcome (j + 1)))"
    using assms(3,4) by (simp add: attempt_of_def try_attempt_def)
  then have "snd (attempt_of s svc env q tk th ic j) = Inr (no_results_outcome (j + 1))" by simp
  from first_success[OF assms(1,2) this] T show ?thesis
    by (simp add: no_results_outcome_def)
qed

text \<open>The embedding service fails once, then the store has nothing.\<close>

theorem zero_hits_return_immediately_witness:
  "generate_embedding (ex_providers 1 []) 1 (str ''q'') = Inr []
   \<and> query_vectors (ex_providers 1 []) 1 [] (effective_top_k default_settings None) = Inr []
   \<and> retrieve_and_answer default_settings ex_service (ex_providers 1 []) (str ''q'') None None True
       = ([Embed, Sleep 1, Embed, Query], Inr (no_results_outcome 2))
   \<and> attempts_made (fst (retrieve_and_answer default_settings ex_service (ex_providers 1 [])
        (str ''q'') None None True)) = 2"
proof -
  have h1: "1 < nat (svc_max_retries ex_service)" by (simp add: ex_service_retries)
  have h2: "\<forall>i<1. \<exists>e. snd (attempt_of default_settings ex_service (ex_providers 1 []) (str ''q'')
      None None True i) = Inl e"
    by (simp add: ex_embedding_down)
  have h3: "generate_embedding (ex_providers 1 []) 1 (str ''q'') = Inr []"
    by (simp add: ex_providers_def)
  have h4: "query_vectors (ex_providers 1 []) 1 [] (effective_top_k default_settings None) = Inr []"
    by (simp add: ex_providers_def)
  have tr: "retrieve_and_answer default_settings ex_service (ex_providers 1 []) (str ''q'') None None True
       = ([Embed, Sleep 1, Embed, Query], Inr (no_results_outcome 2))"
    by (simp add: retrieve_and_answer_def ex_service_retries upt_rec ex_eval)
  from zero_hits_return_immediately[OF h1 h2 h3 h4] h3 h4 tr show ?thesis
    by simp
qed

subsection \<open>Citation texts\<close>

lemma build_citations_texts:
  assumes "\<forall>c \<in> set cs. \<exists>t. ctx_text c = PStr t"
  shows "\<exists>cits. build_citations cs = Inr cits \<and> length cits = length cs \<and>
     (\<forall>i < length cs. \<forall>t. ctx_text (cs ! i) = PStr t \<longrightarrow>
        cit_text (cits ! i) = (if length t > 200 then take 200 t @ str ''...'' else t))"
  using assms
proof (induction cs)
  case Nil
  then show ?case by simp
next
  case (Cons c cs)
  then obtain t where t: "ctx_text c = PStr t" by auto
  from Cons obtain cits where cits: "build_citations cs = Inr cits" "length cits = length cs"
     "\<forall>i < length cs. \<forall>t. ctx_text (cs ! i) = PStr t \<longrightarrow>
        cit_text (cits ! i) = (if length t > 200 then take 200 t @ str ''...'' else t)"
    by auto
  obtain c' where c': "build_citation c = Inr c'"
    "cit_text c' = (if length t > 200 then take 200 t @ str ''...'' else t)"
    using t by (simp add: build_citation_def citation_text_def)
  have "\<forall>i < length (c # cs). \<forall>u. ctx_text ((c # cs) ! i) = PStr u \<longrightarrow>
        cit_text ((c' # cits) ! i) = (if length u > 200 then take 200 u @ str ''...'' else u)"
  proof (intro allI impI)
    fix i u assume i: "i < length (c # cs)" and u: "ctx_text ((c # cs) ! i) = PStr u"
    show "cit_text ((c' # cits) ! i) = (if length u > 200 then take 200 u @ str ''...'' else u)"
    proof (cases i)
      case 0
      then show ?thesis using u t c'(2) by simp
    next
      case (Suc k)
      then show ?thesis using u i cits(3) by simp
    qed
  qed
  then show ?case using c'(1) cits(1,2) by simp
qed

text \<open>
  Claim C8.  For hits whose text is a string, one citation is built per hit, in order;
  its text is the hit's text when that has at most 200 characters, and the first 200
  characters followed by \<open>...\<close> when it has 201 or more.
\<close>

theorem citation_text_truncation:
  assumes "\<forall>r \<in> set hits. \<exists>t. ctx_text (context_of r) = PStr t"
  shows "\<exists>cits. build_citations (map context_of hits) = Inr cits \<and> length cits = length hits \<and>
     (\<forall>i < length hits. \<forall>t. ctx_text (context_of (hits ! i)) = PStr t \<longrightarrow>
        (length t \<le> 200 \<longrightarrow> cit_text (cits ! i) = t) \<and>
        (201 \<le> length t \<longrightarrow> cit_text (cits ! i) = take 200 t @ str ''...''))"
proof -
  have "\<forall>c \<in> set (map context_of hits). \<exists>t. ctx_text c = PStr t" using assms by simp
  from build_citations_texts[OF this] show ?thesis by fastforce
qed

text \<open>Texts of exactly 200 and of 201 characters.\<close>

theorem citation_text_truncation_witness:
  "map cit_text (projr (build_citations (map context_of
      [ex_hit ''a'' 0.9 (replicate 200 120), ex_hit ''b'' 0.8 (replicate 201 120)])))
    = [replicate 200 120, replicate 200 120 @ str ''...'']"
proof -
  let ?hits = "[ex_hit ''a'' 0.9 (replicate 200 120), ex_hit ''b'' 0.8 (replicate 201 120)]"
  have h: "\<forall>r \<in> set ?hits. \<exists>t. ctx_text (context_of r) = PStr t"
    by (simp add: ex_hit_def context_of_def dict_get_def)
  have t0: "ctx_text (context_of (?hits ! 0)) = PStr (replicate 200 120)"
    and t1: "ctx_text (context_of (?hits ! 1)) = PStr (replicate 201 120)"
    by (simp_all add: ex_hit_def context_of_def dict_get_def)
  from citation_text_truncation[OF h] obtain cits where
    c: "build_citations (map context_of ?hits) = Inr cits" "length cits = 2"
    and a: "\<forall>i < length ?hits. \<forall>t. ctx_text (context_of (?hits ! i)) = PStr t \<longrightarrow>
        (length t \<le> 200 \<longrightarrow> cit_text (cits ! i) = t) \<and>
        (201 \<le> length t \<longrightarrow> cit_text (cits ! i) = take 200 t @ str ''...'')"
    by auto
  from a[rule_format, of 0, OF _ t0] have c0: "cit_text (cits ! 0) = replicate 200 120" by simp
  from a[rule_format, of 1, OF _ t1] have c1: "cit_text (cits ! 1) = replicate 200 120 @ str ''...''"
    by simp
  obtain x y where xy: "cits = [x, y]" using c(2)
    by (cases cits; cases "tl cits"; auto)
  show ?thesis using c(1) c0 c1 xy by simp
qed

subsection \<open>Effective threshold and \<open>top_k\<close>\<close>

text \<open>
  Claim C9.  The claim says that a supplied threshold of \<open>0.0\<close> and a supplied \<open>top_k\<close> of
  \<open>0\<close> are the effective values.  Evaluated on the code with the default settings, both
  are replaced by the configured defaults (\<open>0.7\<close> and \<open>5\<close>), and \<open>threshold_used\<close> reports
  \<open>0.7\<close>.
\<close>

theorem zero_overrides_fall_back_to_defaults:
  "effective_threshold ex_service (Some 0) = 0.7
   \<and> effective_top_k default_settings (Some 0) = 5
   \<and> reported_threshold (retrieve_and_answer default_settings ex_service
        (ex_providers 0 ex_sorted_hits) (str ''q'') (Some 0) (Some 0) True) = Some 0.7"
  by (simp add: reported_threshold_def retrieve_and_answer_def ex_service_retries upt_rec ex_eval)

subsection \<open>Threshold filter and fallback\<close>

lemma sorted_desc_hd_max:
  assumes "hits \<noteq> []" and "sorted_wrt (\<ge>) (map hit_score hits)"
  shows "\<forall>h \<in> set hits. hit_score h \<le> hit_score (hd hits)"
  using assms by (cases hits) auto

lemma hd_is_Max:
  assumes "hits \<noteq> []" and "\<forall>h \<in> set hits. hit_score h \<le> hit_score (hd hits)"
  shows "Max (hit_score ` set hits) = hit_score (hd hits)"
proof (rule Max_eqI)
  show "finite (hit_score ` set hits)" by simp
  show "\<And>y. y \<in> hit_score ` set hits \<Longrightarrow> y \<le> hit_score (hd hits)" using assms(2) by auto
  show "hit_score (hd hits) \<in> hit_score ` set hits" using assms(1) by (cases hits) auto
qed

lemma select_hits_fallback:
  assumes "hits \<noteq> []" and "\<forall>h \<in> set hits. hit_score h < th"
  shows "select_hits th hits = ([hd hits], hit_score (hd hits))"
proof -
  have "filter (\<lambda>r. th \<le> hit_score r) hits = []" using assms(2) by (auto simp: filter_empty_conv)
  then show ?thesis using assms(1) by (cases hits) (simp_all add: select_hits_def)
qed

lemma select_hits_filtered:
  assumes "\<exists>h \<in> set hits. th \<le> hit_score h"
  shows "select_hits th hits = (filter (\<lambda>r. th \<le> hit_score r) hits, Max (hit_score ` set hits))"
proof -
  have ne: "filter (\<lambda>r. th \<le> hit_score r) hits \<noteq> []" using assms by (auto simp: filter_empty_conv)
  have "hits \<noteq> []" using assms by auto
  then have "py_max (map hit_score hits) = Max (hit_score ` set hits)"
    using py_max_Max[of "map hit_score hits"] by simp
  then show ?thesis using ne by (simp add: select_hits_def)
qed

lemma try_attempt_hits:
  assumes "generate_embedding env j q = Inr v"
    and "query_vectors env j v k = Inr hits"
    and "hits \<noteq> []"
    and "snd (try_attempt env q k th ic j) = Inr out"
  shows "confidence_score out = snd (select_hits th hits)
       \<and> max_confidence (retrieval_metadata out) = Some (snd (select_hits th hits))
       \<and> threshold_used (retrieval_metadata out) = Some th
       \<and> retrieval_count (retrieval_metadata out) = length (fst (select_hits th hits))
       \<and> generate_response env j q (map context_of (fst (select_hits th hits))) ic = Inr (answer out)
       \<and> (if ic then build_citations (map context_of (fst (select_hits th hits))) else Inr [])
            = Inr (citations out)"
  using assms
  by (auto simp: try_attempt_def Let_def split: sum.splits prod.splits if_splits)

text \<open>
  Claim C1.  Suppose that on the attempt that gets an answer the store returns at least
  one hit, sorted by descending score, and no score reaches the effective threshold.  Then
  the surviving hits are exactly the first hit, which has the highest score; the answer
  generator is called on the context of that hit alone, citations (when requested) are
  built from it alone, and when the generator replies the call returns an outcome with
  that answer and \<open>retrieval_count = 1\<close>.
\<close>

theorem fallback_keeps_top_hit:
  assumes "j < nat (svc_max_retries svc)"
    and "\<forall>i<j. \<exists>e. snd (attempt_of s svc env q tk th ic i) = Inl e"
    and "generate_embedding env j q = Inr v"
    and "query_vectors env j v (effective_top_k s tk) = Inr hits"
    and "hits \<noteq> []"
    and "\<forall>h \<in> set hits. hit_score h < effective_threshold svc th"
    and "sorted_wrt (\<ge>) (map hit_score hits)"
    and "generate_response env j q [context_of (hd hits)] ic = Inr ans"
    and "(if ic then build_citations [context_of (hd hits)] else Inr []) = Inr cits"
  shows "fst (select_hits (effective_threshold svc th) hits) = [hd hits]
     \<and> (\<forall>h \<in> set hits. hit_score h \<le> hit_score (hd hits))
     \<and> (\<exists>out. snd (retrieve_and_answer s svc env q tk th ic) = Inr out
           \<and> answer out = ans \<and> citations out = cits
           \<and> retrieval_count (retrieval_metadata out) = 1)"
proof -
  have sel: "select_hits (effective_threshold svc th) hits = ([hd hits], hit_score (hd hits))"
    using select_hits_fallback[OF assms(5,6)] .
  have top: "\<forall>h \<in> set hits. hit_score h \<le> hit_score (hd hits)"
    using sorted_desc_hd_max[OF assms(5,7)] .
  obtain out where out: "snd (attempt_of s svc env q tk th ic j) = Inr out"
    "answer out = ans" "citations out = cits" "retrieval_count (retrieval_metadata out) = 1"
    using assms(3,4,5,8,9) sel
    by (auto simp: attempt_of_def try_attempt_def Let_def split: if_splits)
  from first_success[OF assms(1,2) out(1)] out(2,3,4) sel top show ?thesis by simp
qed

text \<open>Scores \<open>0.9, 0.4, 0.2\<close> against a threshold of \<open>0.95\<close>.\<close>

theorem fallback_keeps_top_hit_witness:
  "list_all (\<lambda>h. hit_score h < effective_threshold ex_service (Some 0.95)) ex_sorted_hits
   \<and> sorted_wrt (\<ge>) (map hit_score ex_sorted_hits)
   \<and> map hit_id (fst (select_hits (effective_threshold ex_service (Some 0.95)) ex_sorted_hits))
        = [str ''a'']
   \<and> map_sum id answer (snd (retrieve_and_answer default_settings ex_service
        (ex_providers 1 ex_sorted_hits) (str ''q'') None (Some 0.95) True)) = Inr (str ''a'')
   \<and> map_sum id (map cit_text \<circ> citations) (snd (retrieve_and_answer default_settings ex_service
        (ex_providers 1 ex_sorted_hits) (str ''q'') None (Some 0.95) True)) = Inr [str ''alpha'']"
proof -
  let ?env = "ex_providers 1 ex_sorted_hits"
  have h1: "1 < nat (svc_max_retries ex_service)" by (simp add: ex_service_retries)
  have h2: "\<forall>i<1. \<exists>e. snd (attempt_of default_settings ex_service ?env (str ''q'')
      None (Some 0.95) True i) = Inl e"
    by (simp add: ex_embedding_down)
  have h3: "generate_embedding ?env 1 (str ''q'') = Inr []" by (simp add: ex_providers_def)
  have h4: "query_vectors ?env 1 [] (effective_top_k default_settings None) = Inr ex_sorted_hits"
    by (simp add: ex_providers_def)
  have h5: "ex_sorted_hits \<noteq> []" by (simp add: ex_sorted_hits_def)
  have h6: "\<forall>h \<in> set ex_sorted_hits. hit_score h < effective_threshold ex_service (Some 0.95)"
    by (simp add: ex_eval)
  have h7: "sorted_wrt (\<ge>) (map hit_score ex_sorted_hits)" by (simp add: ex_eval)
  have h8: "generate_response ?env 1 (str ''q'') [context_of (hd ex_sorted_hits)] True = Inr (str ''a'')"
    by (simp add: ex_eval)
  obtain c where h9: "(if True then build_citations [context_of (hd ex_sorted_hits)] else Inr []) = Inr [c]"
    and c: "cit_text c = str ''alpha''"
    by (simp add: ex_eval)
  have hd: "hit_id (hd ex_sorted_hits) = str ''a''" by (simp add: ex_eval)
  from fallback_keeps_top_hit[OF h1 h2 h3 h4 h5 h6 h7 h8 h9] h6 h7 c hd show ?thesis
    by (auto simp: list_all_iff)
qed

text \<open>
  Claim C2.  The store returns its hits sorted by descending score.  For a call that
  returns on an attempt where the store gave a non-empty hit list, both \<open>confidence_score\<close>
  and \<open>retrieval_metadata.max_confidence\<close> equal the maximum of the scores of all retrieved
  hits, in either return path: when some hit reaches the effective threshold (the survivors
  are the hits that reach it) and when none does (the survivor is the first hit alone).
\<close>

theorem reported_confidence_value:
  assumes "j < nat (svc_max_retries svc)"
    and "\<forall>i<j. \<exists>e. snd (attempt_of s svc env q tk th ic i) = Inl e"
    and "generate_embedding env j q = Inr v"
    and "query_vectors env j v (effective_top_k s tk) = Inr hits"
    and "hits \<noteq> []"
    and "sorted_wrt (\<ge>) (map hit_score hits)"
    and "snd (attempt_of s svc env q tk th ic j) = Inr out"
  shows "snd (retrieve_and_answer s svc env q tk th ic) = Inr out
     \<and> confidence_score out = Max (hit_score ` set hits)
     \<and> max_confidence (retrieval_metadata out) = Some (Max (hit_score ` set hits))
     \<and> ((\<exists>h \<in> set hits. effective_threshold svc th \<le> hit_score h)
          \<longrightarrow> fst (select_hits (effective_threshold svc th) hits)
                = filter (\<lambda>r. effective_threshold svc th \<le> hit_score r) hits)
     \<and> ((\<forall>h \<in> set hits. hit_score h < effective_threshold svc th)
          \<longrightarrow> fst (select_hits (effective_threshold svc th) hits) = [hd hits])"
proof -
  let ?th = "effective_threshold svc th"
  have run: "snd (retrieve_and_answer s svc env q tk th ic) = Inr out"
    using first_success[OF assms(1,2,7)] by simp
  have out: "confidence_score out = snd (select_hits ?th hits)"
    "max_confidence (retrieval_metadata out) = Some (snd (select_hits ?th hits))"
    using try_attempt_hits[OF assms(3,4,5) assms(7)[unfolded attempt_of_def]] by simp_all
  have pass: "(\<exists>h \<in> set hits. ?th \<le> hit_score h)
      \<longrightarrow> select_hits ?th hits = (filter (\<lambda>r. ?th \<le> hit_score r) hits, Max (hit_score ` set hits))"
    using select_hits_filtered[of hits ?th] by blast
  have fall: "(\<forall>h \<in> set hits. hit_score h < ?th)
      \<longrightarrow> select_hits ?th hits = ([hd hits], hit_score (hd hits))"
    using select_hits_fallback[OF assms(5), of ?th] by blast
  have top: "Max (hit_score ` set hits) = hit_score (hd hits)"
    using hd_is_Max[OF assms(5) sorted_desc_hd_max[OF assms(5,6)]] .
  have val: "snd (select_hits ?th hits) = Max (hit_score ` set hits)"
  proof (cases "\<exists>h \<in> set hits. ?th \<le> hit_score h")
    case True
    then show ?thesis using pass by simp
  next
    case False
    then have "\<forall>h \<in> set hits. hit_score h < ?th" by auto
    then show ?thesis using fall top by simp
  qed
  have p1: "(\<exists>h \<in> set hits. ?th \<le> hit_score h)
          \<longrightarrow> fst (select_hits ?th hits) = filter (\<lambda>r. ?th \<le> hit_score r) hits"
    using pass by simp
  have p2: "(\<forall>h \<in> set hits. hit_score h < ?th) \<longrightarrow> fst (select_hits ?th hits) = [hd hits]"
    using fall by simp
  show ?thesis using run out val p1 p2 by simp
qed

text \<open>
  Scores \<open>0.9, 0.4, 0.2\<close>: the fallback path (threshold \<open>0.95\<close>, after one failed attempt) and
  the filter path (threshold \<open>0.3\<close>) both report \<open>0.9\<close>.
\<close>

theorem reported_confidence_value_witness:
  "sorted_wrt (\<ge>) (map hit_score ex_sorted_hits)
   \<and> Max (hit_score ` set ex_sorted_hits) = 0.9
   \<and> list_all (\<lambda>h. hit_score h < effective_threshold ex_service (Some 0.95)) ex_sorted_hits
   \<and> reported_confidence (retrieve_and_answer default_settings ex_service
        (ex_providers 1 ex_sorted_hits) (str ''q'') None (Some 0.95) True) = Some 0.9
   \<and> reported_max_confidence (retrieve_and_answer default_settings ex_service
        (ex_providers 1 ex_sorted_hits) (str ''q'') None (Some 0.95) True) = Some 0.9
   \<and> list_ex (\<lambda>h. effective_threshold ex_service (Some 0.3) \<le> hit_score h) ex_sorted_hits
   \<and> reported_confidence (retrieve_and_answer default_settings ex_service
        (ex_providers 0 ex_sorted_hits) (str ''q'') None (Some 0.3) True) = Some 0.9
   \<and> reported_max_confidence (retrieve_and_answer default_settings ex_service
        (ex_providers 0 ex_sorted_hits) (str ''q'') None (Some 0.3) True) = Some 0.9"
proof -
  let ?e1 = "ex_providers 1 ex_sorted_hits" and ?e2 = "ex_providers 0 ex_sorted_hits"
  have h1: "1 < nat (svc_max_retries ex_service)" "0 < nat (svc_max_retries ex_service)"
    by (simp_all add: ex_service_retries)
  have h2: "\<forall>i<1. \<exists>e. snd (attempt_of default_settings ex_service ?e1 (str ''q'')
      None (Some 0.95) True i) = Inl e"
    by (simp add: ex_embedding_down)
  have h2': "\<forall>i<0. \<exists>e. snd (attempt_of default_settings ex_service ?e2 (str ''q'')
      None (Some 0.3) True i) = Inl e"
    by simp
  have h3: "generate_embedding ?e1 1 (str ''q'') = Inr []" "generate_embedding ?e2 0 (str ''q'') = Inr []"
    by (simp_all add: ex_providers_def)
  have h4: "query_vectors ?e1 1 [] (effective_top_k default_settings None) = Inr ex_sorted_hits"
    "query_vectors ?e2 0 [] (effective_top_k default_settings None) = Inr ex_sorted_hits"
    by (simp_all add: ex_providers_def)
  have h5: "ex_sorted_hits \<noteq> []" by (simp add: ex_sorted_hits_def)
  have srt: "sorted_wrt (\<ge>) (map hit_score ex_sorted_hits)" by (simp add: ex_eval)
  obtain o1 where o1: "snd (attempt_of default_settings ex_service ?e1 (str ''q'')
      None (Some 0.95) True 1) = Inr o1"
    by (simp add: ex_eval)
  obtain o2 where o2: "snd (attempt_of default_settings ex_service ?e2 (str ''q'')
      None (Some 0.3) True 0) = Inr o2"
    by (simp add: ex_eval)
  have mx: "Max (hit_score ` set ex_sorted_hits) = 0.9" by (simp add: ex_eval)
  have low: "list_all (\<lambda>h. hit_score h < effective_threshold ex_service (Some 0.95)) ex_sorted_hits"
    by (simp add: ex_eval)
  have pass: "list_ex (\<lambda>h. effective_threshold ex_service (Some 0.3) \<le> hit_score h) ex_sorted_hits"
    by (simp add: ex_eval)
  from reported_confidence_value[OF h1(1) h2 h3(1) h4(1) h5 srt o1]
       reported_confidence_value[OF h1(2) h2' h3(2) h4(2) h5 srt o2] srt low pass mx
  show ?thesis
    by (simp add: reported_confidence_def reported_max_confidence_def)
qed

section \<open>Properties of the chunker\<close>

subsection \<open>Sentences\<close>

lemma strip_Nil_iff: "strip s = [] \<longleftrightarrow> (\<forall>c \<in> set s. is_space c)"
proof (cases "dropWhile is_space s = []")
  case True
  then have "\<forall>c \<in> set s. is_space c" by (simp add: dropWhile_eq_Nil_conv)
  then show ?thesis unfolding strip_def True by simp
next
  case False
  then have "\<not> is_space (hd (dropWhile is_space s))" by (rule hd_dropWhile)
  moreover have "hd (dropWhile is_space s) \<in> set (dropWhile is_space s)" using False by simp
  ultimately have "dropWhile is_space (rev (dropWhile is_space s)) \<noteq> []"
    by (auto simp: dropWhile_eq_Nil_conv)
  moreover have "\<not> (\<forall>c \<in> set s. is_space c)" using False by (simp add: dropWhile_eq_Nil_conv)
  ultimately show ?thesis by (auto simp: strip_def)
qed

lemma sentence_end_not_space: "is_sentence_end c \<Longrightarrow> \<not> is_space c"
  by (auto simp: is_sentence_end_def is_space_def)

lemma re_split_keeps_text:
  "\<exists>c \<in> set (acc @ s). \<not> is_space c \<Longrightarrow> \<exists>p \<in> set (re_split acc s). \<exists>c \<in> set p. \<not> is_space c"
proof (induction acc s rule: re_split.induct)
  case (1 acc)
  then show ?case by simp
next
  case (2 acc c)
  then show ?case by simp
next
  case (3 acc c d cs)
  show ?case
  proof (cases "is_sentence_end c \<and> is_space d")
    case True
    then have "\<not> is_space c" by (simp add: sentence_end_not_space)
    then show ?thesis using True by auto
  next
    case False
    have "\<exists>x \<in> set ((acc @ [c]) @ d # cs). \<not> is_space x" using 3(3) by auto
    from 3(2)[OF False this] show ?thesis using False by auto
  qed
qed

lemma split_sentences_not_Nil:
  assumes "\<exists>c \<in> set text. \<not> is_space c"
  shows "split_sentences text \<noteq> []"
proof -
  obtain p where "p \<in> set (re_split [] text)" and "\<exists>c \<in> set p. \<not> is_space c"
    using re_split_keeps_text[of "[]" "text"] assms by auto
  then have "p \<in> set (filter (\<lambda>s. strip s \<noteq> []) (re_split [] text))"
    by (auto simp: strip_Nil_iff)
  then show ?thesis by (auto simp: split_sentences_def filter_empty_conv)
qed

lemma split_sentences_pieces: "\<forall>s \<in> set (split_sentences text). s \<noteq> []"
  by (auto simp: split_sentences_def)

lemma join_space_snoc: "ps \<noteq> [] \<Longrightarrow> join_space (ps @ [s]) = join_space ps @ 32 # s"
  by (induction ps rule: join_space.induct) simp_all

lemma join_space_not_Nil: "ps \<noteq> [] \<Longrightarrow> \<forall>p \<in> set ps. p \<noteq> [] \<Longrightarrow> join_space ps \<noteq> []"
  by (induction ps rule: join_space.induct) simp_all

subsection \<open>The loop over the sentences\<close>

lemma chunk_loop_invariant:
  assumes "chunk_loop ck metadata st ss = Inr st'" and "P st"
    and "\<And>st s st'. P st \<Longrightarrow> s \<in> set ss \<Longrightarrow> chunk_step ck metadata st s = Inr st' \<Longrightarrow> P st'"
  shows "P st'"
  using assms
proof (induction ss arbitrary: st)
  case Nil
  then show ?case by simp
next
  case (Cons s ss)
  from Cons.prems(1) obtain st1 where s1: "chunk_step ck metadata st s = Inr st1"
    and rest: "chunk_loop ck metadata st1 ss = Inr st'"
    by (auto split: sum.splits)
  have P1: "P st1" by (rule Cons.prems(3)[OF Cons.prems(2) _ s1]) simp
  have step: "\<And>st t st'. P st \<Longrightarrow> t \<in> set ss \<Longrightarrow> chunk_step ck metadata st t = Inr st' \<Longrightarrow> P st'"
  proof -
    fix st t st' assume "P st" and "t \<in> set ss" and "chunk_step ck metadata st t = Inr st'"
    then show "P st'" using Cons.prems(3)[of st t st'] by simp
  qed
  show ?case by (rule Cons.IH[OF rest P1 step])
qed

lemma close_chunk_Some: "close_chunk ck (Some md) st \<noteq> Inl e"
  by (simp add: close_chunk_def make_chunk_def Let_def)

lemma chunk_step_Some: "chunk_step ck (Some md) st s \<noteq> Inl e"
proof (cases "close_chunk ck (Some md) st")
  case (Inl e')
  then show ?thesis using close_chunk_Some[of ck md st e'] by simp
next
  case (Inr st1)
  then show ?thesis by (simp add: chunk_step_def Let_def)
qed

lemma chunk_loop_Some: "chunk_loop ck (Some md) st ss \<noteq> Inl e"
proof (induction ss arbitrary: st)
  case Nil
  then show ?case by simp
next
  case (Cons s ss)
  show ?case
  proof (cases "chunk_step ck (Some md) st s")
    case (Inl e')
    then show ?thesis using chunk_step_Some[of ck md st s e'] by simp
  next
    case (Inr st1)
    then show ?thesis using Cons.IH[of st1] by simp
  qed
qed

lemma close_chunk_error: "close_chunk ck metadata st = Inl e \<Longrightarrow> e = AttributeError \<and> metadata = None"
  by (cases metadata) (simp_all add: close_chunk_def make_chunk_def Let_def)

lemma chunk_step_cases:
  assumes "chunk_step ck metadata st s = r"
  obtains (closed_err) e where "close_chunk ck metadata st = Inl e" and "r = Inl e"
  | (closed) st1 where "st_current_chunk st \<noteq> []"
      and "st_current_length st + int (length s) > ck_chunk_size ck"
      and "close_chunk ck metadata st = Inr st1"
      and "r = Inr (st1\<lparr>st_current_chunk := st_current_chunk st1 @ [s],
                   st_current_length := st_current_length st1 + int (length s) + 1\<rparr>)"
  | (kept) "r = Inr (st\<lparr>st_current_chunk := st_current_chunk st @ [s],
                   st_current_length := st_current_length st + int (length s) + 1\<rparr>)"
proof (cases "st_current_length st + int (length s) > ck_chunk_size ck \<and> st_current_chunk st \<noteq> []")
  case True
  show ?thesis
  proof (cases "close_chunk ck metadata st")
    case (Inl e)
    then have "r = Inl e" using assms True by (simp add: chunk_step_def Let_def)
    then show ?thesis using Inl closed_err by blast
  next
    case (Inr st1)
    then have "r = Inr (st1\<lparr>st_current_chunk := st_current_chunk st1 @ [s],
                   st_current_length := st_current_length st1 + int (length s) + 1\<rparr>)"
      using assms True by (simp add: chunk_step_def Let_def)
    then show ?thesis using Inr True closed by blast
  qed
next
  case False
  then have "r = Inr (st\<lparr>st_current_chunk := st_current_chunk st @ [s],
                   st_current_length := st_current_length st + int (length s) + 1\<rparr>)"
    using assms by (auto simp: chunk_step_def Let_def)
  then show ?thesis using kept by blast
qed

lemma chunk_step_error: "chunk_step ck metadata st s = Inl e \<Longrightarrow> e = AttributeError \<and> metadata = None"
proof (erule chunk_step_cases)
  fix e' assume "close_chunk ck metadata st = Inl e'" and "Inl e = (Inl e' :: exn + chunk_state)"
  then show "e = AttributeError \<and> metadata = None" using close_chunk_error[of ck metadata st e'] by simp
qed simp_all

lemma chunk_loop_error: "chunk_loop ck metadata st ss = Inl e \<Longrightarrow> e = AttributeError \<and> metadata = None"
proof (induction ss arbitrary: st)
  case Nil
  then show ?case by simp
next
  case (Cons s ss)
  show ?case
  proof (cases "chunk_step ck metadata st s")
    case (Inl e')
    then show ?thesis using Cons.prems chunk_step_error[OF Inl] by simp
  next
    case (Inr st1)
    then show ?thesis using Cons.prems Cons.IH[of st1] by simp
  qed
qed

lemma chunk_step_buffer: "chunk_step ck metadata st s = Inr st' \<Longrightarrow> st_current_chunk st' \<noteq> []"
  by (erule chunk_step_cases) simp_all

lemma chunk_loop_buffer:
  "chunk_loop ck metadata st ss = Inr st' \<Longrightarrow> ss \<noteq> [] \<or> st_current_chunk st \<noteq> []
     \<Longrightarrow> st_current_chunk st' \<noteq> []"
proof (induction ss arbitrary: st)
  case Nil
  then show ?case by simp
next
  case (Cons s ss)
  show ?case
  proof (cases "chunk_step ck metadata st s")
    case (Inl e')
    then show ?thesis using Cons.prems by simp
  next
    case (Inr st1)
    then have "st_current_chunk st1 \<noteq> []" by (rule chunk_step_buffer)
    then show ?thesis using Cons.prems(1) Cons.IH[of st1] Inr by simp
  qed
qed

subsection \<open>The overlap tail\<close>

lemma slice_from_suffix: "suffix (slice_from i xs) xs"
  by (simp add: slice_from_def suffix_drop)

lemma get_overlap_text_suffix: "suffix (get_overlap_text ck t) t"
proof -
  have "suffix (slice_from (find_char 32 (slice_from (- ck_chunk_overlap ck) t) + 1)
            (slice_from (- ck_chunk_overlap ck) t)) t"
    using slice_from_suffix suffix_order.trans by blast
  then show ?thesis by (simp add: get_overlap_text_def Let_def slice_from_suffix)
qed

lemma get_overlap_text_length_le: "length (get_overlap_text ck t) \<le> length t"
  using get_overlap_text_suffix by (rule suffix_length_le)

lemma last_chars:
  assumes "1 \<le> k" and "k < int (length t)"
  shows "slice_from (- k) t = drop (length t - nat k) t"
    and "length (slice_from (- k) t) = nat k"
proof -
  have "nat (int (length t) + - k) = length t - nat k" using assms by linarith
  then show "slice_from (- k) t = drop (length t - nat k) t" using assms by (simp add: slice_from_def)
  then show "length (slice_from (- k) t) = nat k" using assms by simp
qed

lemma get_overlap_text_bound:
  assumes "1 \<le> ck_chunk_overlap ck"
  shows "int (length (get_overlap_text ck t)) \<le> ck_chunk_overlap ck"
proof (cases "int (length t) \<le> ck_chunk_overlap ck")
  case True
  then show ?thesis by (simp add: get_overlap_text_def)
next
  case False
  let ?ov = "slice_from (- ck_chunk_overlap ck) t"
  have len: "length ?ov = nat (ck_chunk_overlap ck)" using last_chars(2)[of "ck_chunk_overlap ck" t] assms False by simp
  have "length (slice_from (find_char 32 ?ov + 1) ?ov) \<le> length ?ov"
    using slice_from_suffix by (rule suffix_length_le)
  then have a: "int (length (slice_from (find_char 32 ?ov + 1) ?ov)) \<le> ck_chunk_overlap ck"
    using len assms by linarith
  have b: "int (length ?ov) \<le> ck_chunk_overlap ck" using len assms by linarith
  show ?thesis using False a b by (simp add: get_overlap_text_def Let_def)
qed

lemma find_char_props:
  assumes "c \<in> set s"
  shows "0 \<le> find_char c s" and "nat (find_char c s) < length s" and "s ! nat (find_char c s) = c"
proof -
  let ?n = "length (takeWhile (\<lambda>x. x \<noteq> c) s)"
  have f: "find_char c s = int ?n" using assms by (simp add: find_char_def)
  have lt: "?n < length s"
  proof (rule ccontr)
    assume "\<not> ?n < length s"
    then have "?n = length s" using length_takeWhile_le[of "\<lambda>x. x \<noteq> c" s] by simp
    then have "takeWhile (\<lambda>x. x \<noteq> c) s = s" by (metis takeWhile_eq_take take_all order_refl)
    then have "\<forall>x \<in> set s. x \<noteq> c" by (simp add: takeWhile_eq_all_conv)
    then show False using assms by blast
  qed
  show "0 \<le> find_char c s" using f by simp
  show "nat (find_char c s) < length s" using f lt by simp
  show "s ! nat (find_char c s) = c" using nth_length_takeWhile[OF lt] f by simp
qed

lemma find_char_absent: "c \<notin> set s \<Longrightarrow> find_char c s = - 1"
  by (simp add: find_char_def)

lemma get_overlap_text_no_space:
  assumes "ck_chunk_overlap ck < int (length t)"
    and "32 \<notin> set (slice_from (- ck_chunk_overlap ck) t)"
  shows "get_overlap_text ck t = slice_from (- ck_chunk_overlap ck) t"
  using assms by (simp add: get_overlap_text_def Let_def find_char_absent)

lemma get_overlap_text_boundary:
  assumes k: "1 \<le> ck_chunk_overlap ck"
    and sp: "int (length t) \<le> ck_chunk_overlap ck \<or> 32 \<in> set (slice_from (- ck_chunk_overlap ck) t)"
  shows "at_word_boundary t (get_overlap_text ck t)"
proof (cases "int (length t) \<le> ck_chunk_overlap ck")
  case True
  then show ?thesis by (simp add: get_overlap_text_def at_word_boundary_def)
next
  case False
  let ?k = "nat (ck_chunk_overlap ck)"
  let ?m = "length t - ?k"
  let ?ov = "slice_from (- ck_chunk_overlap ck) t"
  have klt: "?k < length t" and kpos: "0 < ?k" using False k by simp_all
  have ov: "?ov = drop ?m t" and ovlen: "length ?ov = ?k"
    using last_chars[of "ck_chunk_overlap ck" t] False k by simp_all
  have mem: "32 \<in> set ?ov" using sp False by simp
  let ?fs = "nat (find_char 32 ?ov)"
  have fs0: "0 \<le> find_char 32 ?ov" and fslt: "?fs < ?k" and fsnth: "?ov ! ?fs = 32"
    using find_char_props[OF mem] ovlen by simp_all
  have nth: "t ! (?m + ?fs) = 32" using fsnth ov klt fslt by simp
  show ?thesis
  proof (cases "find_char 32 ?ov > 0")
    case True
    have res: "get_overlap_text ck t = drop (?fs + 1) ?ov"
      using False True by (simp add: get_overlap_text_def Let_def slice_from_def nat_add_distrib)
    have "length (get_overlap_text ck t) = ?k - (?fs + 1)" using res ovlen by simp
    then have p: "length t - length (get_overlap_text ck t) = ?m + ?fs + 1"
      using klt fslt by linarith
    show ?thesis using nth by (simp add: at_word_boundary_def p)
  next
    case False2: False
    then have z: "?fs = 0" using fs0 by simp
    have res: "get_overlap_text ck t = ?ov"
      using False False2 by (simp add: get_overlap_text_def Let_def)
    have p: "length t - length (get_overlap_text ck t) = ?m" using res ovlen klt by simp
    have "?m < length t" using klt kpos by simp
    then show ?thesis using nth z by (simp add: at_word_boundary_def p)
  qed
qed

subsection \<open>Invariants of the loop\<close>

lemma make_chunk_fields:
  assumes "make_chunk metadata i start t = Inr c"
  shows "c_text c = t" and "c_start_index c = start" and "c_end_index c = start + int (length t)"
    and "\<exists>md. metadata = Some md \<and> c_metadata c = md(str ''chunk_index'' \<mapsto> PInt (int i))"
proof -
  obtain md where md: "metadata = Some md"
    using assms by (cases metadata) (simp_all add: make_chunk_def)
  have c: "c = \<lparr>c_chunk_id = format_val (dict_get md (str ''document_id'') (PStr (str ''doc'')))
                             @ str ''_'' @ str_of_nat i,
               c_text = t, c_start_index = start, c_end_index = start + int (length t),
               c_metadata = md(str ''chunk_index'' \<mapsto> PInt (int i))\<rparr>"
    using assms md by (simp add: make_chunk_def)
  show "c_text c = t" by (simp add: c)
  show "c_start_index c = start" by (simp add: c)
  show "c_end_index c = start + int (length t)" by (simp add: c)
  have "c_metadata c = md(str ''chunk_index'' \<mapsto> PInt (int i))" by (simp add: c)
  then show "\<exists>md. metadata = Some md \<and> c_metadata c = md(str ''chunk_index'' \<mapsto> PInt (int i))"
    using md by blast
qed

lemma close_chunk_Inr:
  assumes "close_chunk ck metadata st = Inr st1"
  obtains c where
    "make_chunk metadata (st_chunk_id st) (st_start st) (join_space (st_current_chunk st)) = Inr c"
    and "st_chunks st1 = st_chunks st @ [c]"
    and "st_start st1 = st_start st + (int (length (join_space (st_current_chunk st)))
           - int (length (get_overlap_text ck (join_space (st_current_chunk st)))))"
    and "st_chunk_id st1 = st_chunk_id st + 1"
    and "st_current_chunk st1 =
           (if get_overlap_text ck (join_space (st_current_chunk st)) \<noteq> []
            then [get_overlap_text ck (join_space (st_current_chunk st))] else [])"
proof (cases "make_chunk metadata (st_chunk_id st) (st_start st) (join_space (st_current_chunk st))")
  case (Inl e)
  then show ?thesis using assms by (simp add: close_chunk_def Let_def)
next
  case (Inr c)
  then have "st1 = \<lparr>st_chunks = st_chunks st @ [c],
               st_start = st_start st + (int (length (join_space (st_current_chunk st)))
                  - int (length (get_overlap_text ck (join_space (st_current_chunk st))))),
               st_chunk_id = st_chunk_id st + 1,
               st_current_chunk = (if get_overlap_text ck (join_space (st_current_chunk st)) \<noteq> []
                  then [get_overlap_text ck (join_space (st_current_chunk st))] else []),
               st_current_length = (if get_overlap_text ck (join_space (st_current_chunk st)) \<noteq> []
                  then int (length (get_overlap_text ck (join_space (st_current_chunk st)))) else 0)\<rparr>"
    using assms by (simp add: close_chunk_def Let_def)
  then show ?thesis using that[OF Inr] by simp
qed

lemma emitted_ok_snoc:
  assumes "emitted_ok md cs" and "c_text c \<noteq> []"
    and "c_metadata c = md(str ''chunk_index'' \<mapsto> PInt (int (length cs)))"
  shows "emitted_ok md (cs @ [c])"
  unfolding emitted_ok_def
proof (intro allI impI)
  fix i assume "i < length (cs @ [c])"
  then consider "i < length cs" | "i = length cs" by fastforce
  then show "c_text ((cs @ [c]) ! i) \<noteq> [] \<and>
        c_metadata ((cs @ [c]) ! i) = md(str ''chunk_index'' \<mapsto> PInt (int i))"
  proof cases
    case 1
    then show ?thesis using assms(1) by (simp add: emitted_ok_def nth_append)
  next
    case 2
    then show ?thesis using assms(2,3) by simp
  qed
qed

lemma chained_snoc:
  assumes "chained ck cs" and "cs \<noteq> [] \<longrightarrow> carried ck (last cs) c"
    and "c_end_index c = c_start_index c + int (length (c_text c))"
  shows "chained ck (cs @ [c])"
  using assms by (auto simp: chained_def successively_append_iff)

text \<open>The invariants hold initially and each step keeps them.\<close>

lemma chunk_step_emitted:
  assumes inv: "pieces_ok st \<and> st_chunk_id st = length (st_chunks st) \<and> emitted_ok md (st_chunks st)"
    and s: "s \<noteq> []"
    and step: "chunk_step ck (Some md) st s = Inr st'"
  shows "pieces_ok st' \<and> st_chunk_id st' = length (st_chunks st') \<and> emitted_ok md (st_chunks st')"
  using step
proof (cases rule: chunk_step_cases)
  case (closed_err e)
  then show ?thesis by simp
next
  case (closed st1)
  from closed(3) obtain c where
    c: "make_chunk (Some md) (st_chunk_id st) (st_start st) (join_space (st_current_chunk st)) = Inr c"
    and st1: "st_chunks st1 = st_chunks st @ [c]" "st_chunk_id st1 = st_chunk_id st + 1"
      "st_current_chunk st1 =
           (if get_overlap_text ck (join_space (st_current_chunk st)) \<noteq> []
            then [get_overlap_text ck (join_space (st_current_chunk st))] else [])"
    by (rule close_chunk_Inr)
  have tne: "c_text c \<noteq> []"
    using make_chunk_fields(1)[OF c] join_space_not_Nil[OF closed(1)] inv by (simp add: pieces_ok_def)
  have md: "c_metadata c = md(str ''chunk_index'' \<mapsto> PInt (int (length (st_chunks st))))"
    using make_chunk_fields(4)[OF c] inv by simp
  have "emitted_ok md (st_chunks st @ [c])" using emitted_ok_snoc[OF _ tne md] inv by simp
  moreover have "pieces_ok st'" using closed(4) st1(3) s by (simp add: pieces_ok_def)
  ultimately show ?thesis using closed(4) st1(1,2) inv by simp
next
  case kept
  then show ?thesis using inv s by (simp add: pieces_ok_def)
qed

lemma chunk_step_linked:
  assumes inv: "linked ck st"
    and step: "chunk_step ck metadata st s = Inr st'"
  shows "linked ck st'"
  using step
proof (cases rule: chunk_step_cases)
  case (closed_err e)
  then show ?thesis by simp
next
  case (closed st1)
  let ?t = "join_space (st_current_chunk st)"
  from closed(3) obtain c where
    c: "make_chunk metadata (st_chunk_id st) (st_start st) ?t = Inr c"
    and st1: "st_chunks st1 = st_chunks st @ [c]"
      "st_start st1 = st_start st + (int (length ?t) - int (length (get_overlap_text ck ?t)))"
      "st_current_chunk st1 = (if get_overlap_text ck ?t \<noteq> [] then [get_overlap_text ck ?t] else [])"
    by (rule close_chunk_Inr)
  note f = make_chunk_fields(1-3)[OF c]
  have car: "st_chunks st \<noteq> [] \<longrightarrow> carried ck (last (st_chunks st)) c"
    using inv f by (simp add: linked_def carried_def Let_def)
  have ch: "chained ck (st_chunks st @ [c])"
    using chained_snoc[OF _ car] inv f by (simp add: linked_def)
  have pre: "prefix (get_overlap_text ck ?t) (join_space (st_current_chunk st1 @ [s]))"
    using st1(3) by (simp add: join_space_snoc)
  show ?thesis using closed(4) ch pre st1(1,2) f by (simp add: linked_def Let_def)
next
  case kept
  show ?thesis
  proof (cases "st_chunks st = []")
    case True
    then show ?thesis using kept inv by (simp add: linked_def)
  next
    case False
    then have ne: "st_current_chunk st \<noteq> []" using inv by (simp add: linked_def)
    then show ?thesis using kept inv False
      by (auto simp: linked_def Let_def join_space_snoc prefix_def)
  qed
qed

subsection \<open>The result of \<open>chunk_text\<close>\<close>

lemma blank_iff: "(text = [] \<or> strip text = []) \<longleftrightarrow> (\<forall>c \<in> set text. is_space c)"
  by (auto simp: strip_Nil_iff)

lemma chunk_text_blank: "\<forall>c \<in> set text. is_space c \<Longrightarrow> chunk_text ck text metadata = Inr []"
  using blank_iff[of "text"] by (simp add: chunk_text_def)

lemma chunk_text_flush:
  assumes "\<exists>c \<in> set text. \<not> is_space c"
  shows "chunk_text ck text metadata =
     (case chunk_loop ck metadata initial_state (split_sentences text) of
        Inl e \<Rightarrow> Inl e
      | Inr st \<Rightarrow>
          (case make_chunk metadata (st_chunk_id st) (st_start st)
                  (join_space (st_current_chunk st)) of
             Inl e \<Rightarrow> Inl e
           | Inr c \<Rightarrow> Inr (st_chunks st @ [c])))"
proof -
  have nb: "\<not> (text = [] \<or> strip text = [])" using assms blank_iff[of "text"] by blast
  have ne: "split_sentences text \<noteq> []" using assms by (rule split_sentences_not_Nil)
  show ?thesis
  proof (cases "chunk_loop ck metadata initial_state (split_sentences text)")
    case (Inl e)
    then show ?thesis using nb by (simp add: chunk_text_def)
  next
    case (Inr st)
    then have "st_current_chunk st \<noteq> []" using chunk_loop_buffer ne by blast
    then show ?thesis using nb Inr by (simp add: chunk_text_def)
  qed
qed

lemma chunk_text_Inr:
  assumes "chunk_text ck text metadata = Inr cs" and "\<exists>c \<in> set text. \<not> is_space c"
  obtains st c where "chunk_loop ck metadata initial_state (split_sentences text) = Inr st"
    and "make_chunk metadata (st_chunk_id st) (st_start st) (join_space (st_current_chunk st)) = Inr c"
    and "cs = st_chunks st @ [c]" and "st_current_chunk st \<noteq> []"
proof (cases "chunk_loop ck metadata initial_state (split_sentences text)")
  case (Inl e)
  then show ?thesis using assms chunk_text_flush[OF assms(2), of ck metadata] by simp
next
  case (Inr st)
  have ne: "st_current_chunk st \<noteq> []"
    using chunk_loop_buffer[OF Inr] split_sentences_not_Nil[OF assms(2)] by blast
  show ?thesis
  proof (cases "make_chunk metadata (st_chunk_id st) (st_start st) (join_space (st_current_chunk st))")
    case (Inl e)
    then show ?thesis using assms Inr chunk_text_flush[OF assms(2), of ck metadata] by simp
  next
    case c: (Inr c)
    then have "cs = st_chunks st @ [c]"
      using assms Inr chunk_text_flush[OF assms(2), of ck metadata] by simp
    then show ?thesis using that[OF Inr c _ ne] by simp
  qed
qed

lemma chunk_text_chained:
  assumes "chunk_text ck text metadata = Inr cs"
  shows "chained ck cs"
proof (cases "\<forall>c \<in> set text. is_space c")
  case True
  then have "cs = []" using assms chunk_text_blank[of "text" ck metadata] by simp
  then show ?thesis by (simp add: chained_def)
next
  case False
  then have nb: "\<exists>c \<in> set text. \<not> is_space c" by simp
  from assms nb obtain st c where
    loop: "chunk_loop ck metadata initial_state (split_sentences text) = Inr st"
    and c: "make_chunk metadata (st_chunk_id st) (st_start st) (join_space (st_current_chunk st)) = Inr c"
    and cs: "cs = st_chunks st @ [c]"
    by (rule chunk_text_Inr)
  have init: "linked ck initial_state" by (simp add: linked_def chained_def initial_state_def)
  have lk: "linked ck st"
  proof (rule chunk_loop_invariant[of ck metadata initial_state "split_sentences text" st "linked ck"])
    show "chunk_loop ck metadata initial_state (split_sentences text) = Inr st" by (rule loop)
    show "linked ck initial_state" by (rule init)
    show "\<And>st s st'. linked ck st \<Longrightarrow> s \<in> set (split_sentences text) \<Longrightarrow>
        chunk_step ck metadata st s = Inr st' \<Longrightarrow> linked ck st'"
      by (rule chunk_step_linked)
  qed
  note f = make_chunk_fields(1-3)[OF c]
  have car: "st_chunks st \<noteq> [] \<longrightarrow> carried ck (last (st_chunks st)) c"
    using lk f by (simp add: linked_def carried_def Let_def)
  show ?thesis unfolding cs
    using chained_snoc[OF _ car] lk f by (simp add: linked_def)
qed

lemma chunk_text_emitted:
  assumes "chunk_text ck text (Some md) = Inr cs"
  shows "emitted_ok md cs"
proof (cases "\<forall>c \<in> set text. is_space c")
  case True
  then have "cs = []" using assms chunk_text_blank[of "text" ck "Some md"] by simp
  then show ?thesis by (simp add: emitted_ok_def)
next
  case False
  then have nb: "\<exists>c \<in> set text. \<not> is_space c" by simp
  from assms nb obtain st c where
    loop: "chunk_loop ck (Some md) initial_state (split_sentences text) = Inr st"
    and c: "make_chunk (Some md) (st_chunk_id st) (st_start st) (join_space (st_current_chunk st)) = Inr c"
    and cs: "cs = st_chunks st @ [c]" and ne: "st_current_chunk st \<noteq> []"
    by (rule chunk_text_Inr)
  let ?P = "\<lambda>st. pieces_ok st \<and> st_chunk_id st = length (st_chunks st) \<and> emitted_ok md (st_chunks st)"
  have init: "?P initial_state" by (simp add: pieces_ok_def emitted_ok_def initial_state_def)
  have inv: "?P st"
  proof (rule chunk_loop_invariant[of ck "Some md" initial_state "split_sentences text" st ?P])
    show "chunk_loop ck (Some md) initial_state (split_sentences text) = Inr st" by (rule loop)
    show "?P initial_state" by (rule init)
  next
    fix st s st'
    assume "?P st" and "s \<in> set (split_sentences text)" and "chunk_step ck (Some md) st s = Inr st'"
    then show "?P st'" using chunk_step_emitted[of st md s ck st'] split_sentences_pieces[of "text"]
      by blast
  qed
  have tne: "c_text c \<noteq> []"
    using make_chunk_fields(1)[OF c] join_space_not_Nil[OF ne] inv by (simp add: pieces_ok_def)
  have md: "c_metadata c = md(str ''chunk_index'' \<mapsto> PInt (int (length (st_chunks st))))"
    using make_chunk_fields(4)[OF c] inv by simp
  show ?thesis unfolding cs using emitted_ok_snoc[OF _ tne md] inv by simp
qed

lemma chunk_text_Some_returns: "\<exists>cs. chunk_text ck text (Some md) = Inr cs"
proof (cases "chunk_text ck text (Some md)")
  case (Inl e)
  have nb: "\<exists>c \<in> set text. \<not> is_space c"
    using Inl chunk_text_blank[of "text" ck "Some md"] by auto
  show ?thesis
  proof (cases "chunk_loop ck (Some md) initial_state (split_sentences text)")
    case l: (Inl e')
    then show ?thesis using chunk_loop_Some[of ck md initial_state "split_sentences text" e'] by simp
  next
    case (Inr st)
    then show ?thesis using Inl chunk_text_flush[OF nb, of ck "Some md"]
      by (simp add: make_chunk_def)
  qed
next
  case (Inr cs)
  then show ?thesis by blast
qed

subsection \<open>Evaluation of the example inputs\<close>

lemmas chunk_eval = chunk_text_def split_sentences_def strip_def is_space_def is_sentence_end_def
  initial_state_def make_chunk_def close_chunk_def chunk_step_def get_overlap_text_def
  slice_from_def find_char_def dict_get_def format_val_def str_def ex_chunker_small_def
  ex_text_small_def ex_chunker_zero_def init_chunker_def
  default_settings_def ex_chunker_wide_def ex_text_wide_def chunks_of_def Let_def

lemma ex_text_small_not_blank: "\<exists>c \<in> set ex_text_small. \<not> is_space c"
  by (simp add: ex_text_small_def str_def is_space_def)

lemma ex_small_texts:
  "map c_text (chunks_of (chunk_text ex_chunker_small ex_text_small (Some Map.empty)))
     = [str ''abcdefghij.'', str ''hij. klm.'']"
  by (simp add: chunk_eval)

lemma ex_wide_texts:
  "map c_text (chunks_of (chunk_text ex_chunker_wide ex_text_wide (Some Map.empty)))
     = [str ''aaaaaaaaaaaa bb.'', str ''bb. c.'', str ''bb. c. ddddddd.'']"
  by (simp add: chunk_eval)

lemma ex_wide_starts:
  "map c_start_index (chunks_of (chunk_text ex_chunker_wide ex_text_wide (Some Map.empty)))
     = [0, 13, 13]"
  by (simp add: chunk_eval)

subsection \<open>What \<open>chunk_text\<close> returns\<close>

text \<open>
  Claim C7.  \<open>chunk_text\<close> returns the empty sequence exactly when the text is empty or
  consists of whitespace only (whatever the metadata argument).  Called with a metadata
  map it always returns a sequence of chunks (it does not raise), not empty for any other
  text; every chunk has a non-empty text, and the metadata of the chunk at position \<open>i\<close> is
  the caller's map with \<open>chunk_index = i\<close> added.
\<close>

theorem chunk_text_output:
  "(chunk_text ck text metadata = Inr [] \<longleftrightarrow> (\<forall>c \<in> set text. is_space c))
   \<and> (\<exists>cs. chunk_text ck text (Some md) = Inr cs
         \<and> (cs = [] \<longleftrightarrow> (\<forall>c \<in> set text. is_space c))
         \<and> (\<forall>i < length cs. c_text (cs ! i) \<noteq> []
               \<and> c_metadata (cs ! i) = md(str ''chunk_index'' \<mapsto> PInt (int i))))"
proof -
  have empty: "chunk_text ck text m = Inr [] \<longleftrightarrow> (\<forall>c \<in> set text. is_space c)" for m
  proof
    assume e: "chunk_text ck text m = Inr []"
    show "\<forall>c \<in> set text. is_space c"
    proof (rule ccontr)
      assume "\<not> (\<forall>c \<in> set text. is_space c)"
      then have nb: "\<exists>c \<in> set text. \<not> is_space c" by simp
      from e nb have "([] :: chunk list) \<noteq> []" by (rule chunk_text_Inr) simp
      then show False by simp
    qed
  next
    assume "\<forall>c \<in> set text. is_space c"
    then show "chunk_text ck text m = Inr []" by (rule chunk_text_blank)
  qed
  obtain cs where cs: "chunk_text ck text (Some md) = Inr cs"
    using chunk_text_Some_returns by blast
  have "cs = [] \<longleftrightarrow> (\<forall>c \<in> set text. is_space c)"
    using empty[of "Some md"] cs by simp
  moreover have "\<forall>i < length cs. c_text (cs ! i) \<noteq> []
           \<and> c_metadata (cs ! i) = md(str ''chunk_index'' \<mapsto> PInt (int i))"
    using chunk_text_emitted[OF cs] by (simp add: emitted_ok_def)
  ultimately show ?thesis using cs empty[of metadata] by blast
qed

text \<open>A text of two blanks, and a text that is cut into two chunks.\<close>

theorem chunk_text_output_witness:
  "chunk_text ex_chunker_small (str ''  '') None = Inr []
   \<and> chunk_text ex_chunker_small (str ''  '') (Some Map.empty) = Inr []
   \<and> map c_text (chunks_of (chunk_text ex_chunker_small ex_text_small (Some Map.empty)))
        = [str ''abcdefghij.'', str ''hij. klm.'']
   \<and> map c_metadata (chunks_of (chunk_text ex_chunker_small ex_text_small (Some Map.empty)))
        = [[str ''chunk_index'' \<mapsto> PInt 0], [str ''chunk_index'' \<mapsto> PInt 1]]"
proof -
  obtain cs where cs: "chunk_text ex_chunker_small ex_text_small (Some Map.empty) = Inr cs"
    and md: "\<forall>i < length cs. c_text (cs ! i) \<noteq> []
           \<and> c_metadata (cs ! i) = Map.empty(str ''chunk_index'' \<mapsto> PInt (int i))"
    using chunk_text_output[of ex_chunker_small ex_text_small None Map.empty] by blast
  have blank: "\<forall>c \<in> set (str ''  ''). is_space c" by (simp add: str_def is_space_def)
  have b1: "chunk_text ex_chunker_small (str ''  '') None = Inr []"
    using chunk_text_output[of ex_chunker_small "str ''  ''" None Map.empty] blank by blast
  have b2: "chunk_text ex_chunker_small (str ''  '') (Some Map.empty) = Inr []"
    using chunk_text_output[of ex_chunker_small "str ''  ''" "Some Map.empty" Map.empty] blank
    by blast
  have t: "map c_text cs = [str ''abcdefghij.'', str ''hij. klm.'']"
    using ex_small_texts cs by (simp add: chunks_of_def)
  have "map c_metadata cs = [[str ''chunk_index'' \<mapsto> PInt 0], [str ''chunk_index'' \<mapsto> PInt 1]]"
  proof -
    from t obtain a b where ab: "cs = [a, b]" by (auto simp: map_eq_Cons_conv)
    show ?thesis using md[rule_format, of 0] md[rule_format, of 1] by (simp add: ab)
  qed
  then show ?thesis using cs b1 b2 t by (simp add: chunks_of_def)
qed

text \<open>
  Claim C10.  Called without metadata (\<open>metadata = None\<close>) on a text that has a character
  other than whitespace, \<open>chunk_text\<close> returns no chunk sequence: it raises
  \<open>AttributeError\<close>, from the \<open>metadata.get\<close> that builds the first \<open>chunk_id\<close>.
\<close>

theorem missing_metadata_raises:
  assumes "\<exists>c \<in> set text. \<not> is_space c"
  shows "chunk_text ck text None = Inl AttributeError"
proof (cases "chunk_loop ck None initial_state (split_sentences text)")
  case (Inl e)
  then have "e = AttributeError" using chunk_loop_error by blast
  then show ?thesis using Inl chunk_text_flush[OF assms, of ck None] by simp
next
  case (Inr st)
  then show ?thesis using chunk_text_flush[OF assms, of ck None] by (simp add: make_chunk_def)
qed

text \<open>The text \<open>abcdefghij. klm.\<close> without metadata.\<close>

theorem missing_metadata_raises_witness:
  "list_ex (\<lambda>c. \<not> is_space c) ex_text_small
   \<and> chunk_text ex_chunker_small ex_text_small None = Inl AttributeError"
  using missing_metadata_raises[OF ex_text_small_not_blank, of ex_chunker_small]
    ex_text_small_not_blank
  by (simp add: list_ex_iff)

subsection \<open>The overlap between consecutive chunks\<close>

text \<open>
  Claim C5, as amended.  Let \<open>chunk_overlap \<ge> 1\<close>.  For consecutive chunks \<open>cs ! i\<close> and
  \<open>cs ! (i + 1)\<close> returned by \<open>chunk_text\<close>, the overlap tail of the closed chunk is a suffix
  of its text, the next chunk's text begins with it, and it has at most \<open>chunk_overlap\<close>
  characters.  It begins at a word boundary (at the start of the closed chunk, right after
  a space, or on a space) when the closed chunk has at most \<open>chunk_overlap\<close> characters or
  its last \<open>chunk_overlap\<close> characters contain a space; when they contain no space the tail
  is exactly those last \<open>chunk_overlap\<close> characters, wherever they begin.
\<close>

theorem overlap_tail_carried:
  assumes "1 \<le> ck_chunk_overlap ck"
    and "chunk_text ck text metadata = Inr cs"
    and "Suc i < length cs"
  shows "suffix (get_overlap_text ck (c_text (cs ! i))) (c_text (cs ! i))
     \<and> prefix (get_overlap_text ck (c_text (cs ! i))) (c_text (cs ! Suc i))
     \<and> int (length (get_overlap_text ck (c_text (cs ! i)))) \<le> ck_chunk_overlap ck
     \<and> (int (length (c_text (cs ! i))) \<le> ck_chunk_overlap ck
          \<or> 32 \<in> set (slice_from (- ck_chunk_overlap ck) (c_text (cs ! i)))
        \<longrightarrow> at_word_boundary (c_text (cs ! i)) (get_overlap_text ck (c_text (cs ! i))))
     \<and> (ck_chunk_overlap ck < int (length (c_text (cs ! i)))
          \<and> 32 \<notin> set (slice_from (- ck_chunk_overlap ck) (c_text (cs ! i)))
        \<longrightarrow> get_overlap_text ck (c_text (cs ! i))
              = slice_from (- ck_chunk_overlap ck) (c_text (cs ! i)))"
proof -
  have "successively (carried ck) cs" using chunk_text_chained[OF assms(2)] by (simp add: chained_def)
  then have "carried ck (cs ! i) (cs ! Suc i)" using assms(3) by (rule successively_nth)
  then have pre: "prefix (get_overlap_text ck (c_text (cs ! i))) (c_text (cs ! Suc i))"
    by (simp add: carried_def Let_def)
  show ?thesis
    using pre get_overlap_text_suffix[of ck "c_text (cs ! i)"]
      get_overlap_text_bound[OF assms(1), of "c_text (cs ! i)"]
      get_overlap_text_boundary[OF assms(1), of "c_text (cs ! i)"]
      get_overlap_text_no_space[of ck "c_text (cs ! i)"]
    by blast
qed

text \<open>The tail \<open>bb.\<close> carried from \<open>aaaaaaaaaaaa bb.\<close> into \<open>bb. c.\<close> (overlap 10).\<close>

theorem overlap_tail_carried_witness:
  "get_overlap_text ex_chunker_wide (str ''aaaaaaaaaaaa bb.'') = str ''bb.''
   \<and> prefix (str ''bb.'') (str ''bb. c.'')
   \<and> 32 \<in> set (slice_from (- ck_chunk_overlap ex_chunker_wide) (str ''aaaaaaaaaaaa bb.''))
   \<and> at_word_boundary (str ''aaaaaaaaaaaa bb.'') (str ''bb.'')
   \<and> map c_text (chunks_of (chunk_text ex_chunker_wide ex_text_wide (Some Map.empty)))
     = [str ''aaaaaaaaaaaa bb.'', str ''bb. c.'', str ''bb. c. ddddddd.'']"
proof -
  obtain cs where cs: "chunk_text ex_chunker_wide ex_text_wide (Some Map.empty) = Inr cs"
    using chunk_text_Some_returns by blast
  have t: "map c_text cs = [str ''aaaaaaaaaaaa bb.'', str ''bb. c.'', str ''bb. c. ddddddd.'']"
    using ex_wide_texts cs by (simp add: chunks_of_def)
  then obtain a b c where abc: "cs = [a, b, c]" by (auto simp: map_eq_Cons_conv)
  have k: "1 \<le> ck_chunk_overlap ex_chunker_wide" by (simp add: ex_chunker_wide_def)
  have i: "Suc 0 < length cs" by (simp add: abc)
  have sp: "32 \<in> set (slice_from (- ck_chunk_overlap ex_chunker_wide) (str ''aaaaaaaaaaaa bb.''))"
    by (simp add: ex_chunker_wide_def slice_from_def str_def)
  have ov: "get_overlap_text ex_chunker_wide (str ''aaaaaaaaaaaa bb.'') = str ''bb.''"
    by (simp add: chunk_eval)
  from overlap_tail_carried[OF k cs i] t sp ov show ?thesis using cs
    by (simp add: abc chunks_of_def)
qed

text \<open>
  The claim as stated fails.  With \<open>chunk_size = 10\<close> and \<open>chunk_overlap = 4\<close> the text
  \<open>abcdefghij. klm.\<close> gives the chunks \<open>abcdefghij.\<close> and \<open>hij. klm.\<close>: the tail \<open>hij.\<close> has
  no space to break at and begins between \<open>g\<close> and \<open>h\<close>, in the middle of a word.  With
  \<open>chunk_overlap = 0\<close> the slice \<open>text[-0:]\<close> is the whole text, so the tail of
  \<open>abcdefghij.\<close> has 11 characters, more than \<open>chunk_overlap\<close>.
\<close>

theorem overlap_tail_counterexample:
  "map c_text (chunks_of (chunk_text ex_chunker_small ex_text_small (Some Map.empty)))
     = [str ''abcdefghij.'', str ''hij. klm.'']
   \<and> get_overlap_text ex_chunker_small (str ''abcdefghij.'') = str ''hij.''
   \<and> starts_mid_word (str ''abcdefghij.'') (str ''hij.'')
   \<and> \<not> at_word_boundary (str ''abcdefghij.'') (str ''hij.'')
   \<and> get_overlap_text ex_chunker_zero (str ''abcdefghij.'') = str ''abcdefghij.''
   \<and> \<not> int (length (get_overlap_text ex_chunker_zero (str ''abcdefghij.'')))
         \<le> ck_chunk_overlap ex_chunker_zero"
  by (simp add: chunk_eval starts_mid_word_def at_word_boundary_def)

subsection \<open>Start and end offsets\<close>

lemma carried_start_le: "carried ck c d \<Longrightarrow> c_start_index c \<le> c_start_index d"
  using get_overlap_text_length_le[of ck "c_text c"] by (simp add: carried_def Let_def)

text \<open>
  Claim C6, as amended.  In every chunk sequence returned by \<open>chunk_text\<close>, each chunk has
  \<open>start_index \<le> end_index\<close> and the \<open>start_index\<close> values are non-decreasing along the sequence;
  from a chunk to the next \<open>start_index\<close> strictly increases whenever \<open>chunk_overlap \<ge> 1\<close> and
  the closed chunk's text is longer than \<open>chunk_overlap\<close>.
\<close>

theorem start_index_monotone:
  assumes "chunk_text ck text metadata = Inr cs"
  shows "(\<forall>c \<in> set cs. c_start_index c \<le> c_end_index c)
     \<and> sorted (map c_start_index cs)
     \<and> (\<forall>i. Suc i < length cs \<and> 1 \<le> ck_chunk_overlap ck
              \<and> ck_chunk_overlap ck < int (length (c_text (cs ! i)))
            \<longrightarrow> c_start_index (cs ! i) < c_start_index (cs ! Suc i))"
proof -
  have ch: "successively (carried ck) cs"
    and en: "\<forall>c \<in> set cs. c_end_index c = c_start_index c + int (length (c_text c))"
    using chunk_text_chained[OF assms] by (simp_all add: chained_def)
  have a: "\<forall>c \<in> set cs. c_start_index c \<le> c_end_index c" using en by simp
  have "successively (\<lambda>c d. c_start_index c \<le> c_start_index d) cs"
    using ch carried_start_le by (rule successively_mono) auto
  then have "successively (\<le>) (map c_start_index cs)" by (simp add: successively_map)
  then have b: "sorted (map c_start_index cs)"
    by (simp add: successively_conv_sorted_wrt)
  have c: "\<forall>i. Suc i < length cs \<and> 1 \<le> ck_chunk_overlap ck
              \<and> ck_chunk_overlap ck < int (length (c_text (cs ! i)))
            \<longrightarrow> c_start_index (cs ! i) < c_start_index (cs ! Suc i)"
  proof (intro allI impI)
    fix i
    assume h: "Suc i < length cs \<and> 1 \<le> ck_chunk_overlap ck
              \<and> ck_chunk_overlap ck < int (length (c_text (cs ! i)))"
    then have car: "carried ck (cs ! i) (cs ! Suc i)" using ch successively_nth by blast
    have "int (length (get_overlap_text ck (c_text (cs ! i)))) \<le> ck_chunk_overlap ck"
      using h get_overlap_text_bound by blast
    then show "c_start_index (cs ! i) < c_start_index (cs ! Suc i)"
      using car h by (simp add: carried_def Let_def)
  qed
  show ?thesis using a b c by blast
qed

text \<open>Chunk size 12, overlap 10: the offsets of the three chunks.\<close>

theorem start_index_monotone_witness:
  "map c_start_index (chunks_of (chunk_text ex_chunker_wide ex_text_wide (Some Map.empty)))
     = [0, 13, 13]
   \<and> sorted [0, 13, 13 :: int]
   \<and> ck_chunk_overlap ex_chunker_wide < int (length (str ''aaaaaaaaaaaa bb.''))
   \<and> map c_end_index (chunks_of (chunk_text ex_chunker_wide ex_text_wide (Some Map.empty)))
     = [16, 19, 28]"
proof -
  obtain cs where cs: "chunk_text ex_chunker_wide ex_text_wide (Some Map.empty) = Inr cs"
    using chunk_text_Some_returns by blast
  have st: "map c_start_index cs = [0, 13, 13]" using ex_wide_starts cs by (simp add: chunks_of_def)
  have en: "map c_end_index (chunks_of (chunk_text ex_chunker_wide ex_text_wide (Some Map.empty)))
     = [16, 19, 28]"
    by (simp add: chunk_eval)
  from start_index_monotone[OF cs] st en cs show ?thesis
    by (simp add: chunks_of_def ex_chunker_wide_def str_def)
qed

text \<open>
  The claim as stated fails: in that example the second chunk \<open>bb. c.\<close> is shorter than the
  overlap, so it is carried over whole and the third chunk starts at the same offset 13
  as the second; both come after the first chunk.
\<close>

theorem start_index_counterexample:
  "map c_start_index (chunks_of (chunk_text ex_chunker_wide ex_text_wide (Some Map.empty)))
     = [0, 13, 13]
   \<and> \<not> c_start_index (chunks_of (chunk_text ex_chunker_wide ex_text_wide (Some Map.empty)) ! 1)
         < c_start_index (chunks_of (chunk_text ex_chunker_wide ex_text_wide (Some Map.empty)) ! 2)"
  by (simp add: chunk_eval)

end
